theory Spec2Isabelle
  imports Main "HOL-Library.Word" "HOL-Library.Monad_Syntax" "HOL-Library.Product_Lexorder"
begin

unbundle bit_operations_syntax

section \<open>Data model\<close>

text \<open>
  The simulator's integers are C++ machine integers. \<open>unsigned int\<close> is a \<open>32 word\<close>,
  \<open>uint16_t\<close> a \<open>16 word\<close>. An \<open>int\<close> is kept as its 32-bit two's complement
  pattern in a \<open>32 word\<close> and read with \<open>sint\<close> wherever the source compares it as a
  signed number, so that the conversions between \<open>int\<close> and \<open>unsigned int\<close> of the
  source are the identity on the pattern.

  Operations whose behaviour the C++ standard leaves undefined (an index outside an
  allocated array, a shift by the operand's width or more) return \<open>None\<close>; every other
  result is \<open>Some\<close>.
\<close>

type_synonym u32 = "32 word"
type_synonym u16 = "16 word"
type_synonym cint = "32 word"

subsection \<open>pagetable.h\<close>

text \<open>
  A \<open>Map\<close> is a terminal slot; its field \<open>frameNumber\<close> is \<open>mapFrameNumber\<close> here. A
  \<open>Level\<close> node owns its arrays, so the trie is a tree: a null pointer is \<open>None\<close>, an
  array the list of its elements.
\<close>

record Map =
  mapFrameNumber :: cint
  valid :: bool

datatype Level = Level (depth: u32) (entryCount: u32)
  (nextLevelArray: "Level option list option") (mapArray: "Map list option")

record PageTable =
  levelCount :: u32
  levelBits :: "u32 list"
  levelMask :: "u32 list"
  levelShift :: "u32 list"
  offsetBits :: u32
  offsetMask :: u32
  rootLevel :: Level

subsection \<open>replacement.h\<close>

record LoadedPageInfo =
  fullVPN :: u32
  frameNumber :: cint
  ageBits :: u16
  lastAccessTime :: u32
  accessedThisInterval :: bool

record ReplacementState =
  maxFrames :: u32
  bitstringInterval :: u32
  accessesSinceAging :: u32
  currentTime :: u32
  nextFreeFrame :: u32
  loaded :: "LoadedPageInfo list"

section \<open>The page table (pagetable.cpp)\<close>

text \<open>
  \<open>x << n\<close> and \<open>x >> n\<close> on \<open>unsigned int\<close>, undefined for \<open>n\<close> of 32 or more, and
  \<open>a[i]\<close> on an array of known length.
\<close>

definition shl :: "u32 \<Rightarrow> u32 \<Rightarrow> u32 option" where
  "shl x n = (if n < 32 then Some (push_bit (unat n) x) else None)"

definition shr :: "u32 \<Rightarrow> u32 \<Rightarrow> u32 option" where
  "shr x n = (if n < 32 then Some (drop_bit (unat n) x) else None)"

definition at :: "'a list \<Rightarrow> u32 \<Rightarrow> 'a option" where
  "at xs i = (if unat i < length xs then Some (xs ! unat i) else None)"

definition allocateLevel :: "u32 \<Rightarrow> u32 \<Rightarrow> Level" where
  "allocateLevel d n = Level d n None None"

text \<open>
  The second loop of \<open>createPageTable\<close>, over the copied level bit-widths with the
  local \<open>accumulated\<close>; it yields \<open>levelShift\<close> and \<open>levelMask\<close>.
\<close>

fun maskLoop :: "u32 list \<Rightarrow> u32 \<Rightarrow> (u32 list \<times> u32 list) option" where
  "maskLoop [] accumulated = Some ([], [])"
| "maskLoop (bits # bs) accumulated =
     do { let hiBits = accumulated + bits;
          let shift = 32 - hiBits;
          msk \<leftarrow> (if bits = 32 then Some (- 1)
                   else do { one \<leftarrow> shl 1 bits; shl (one - 1) shift });
          (shifts, masks) \<leftarrow> maskLoop bs (accumulated + bits);
          Some (shift # shifts, msk # masks) }"

definition createPageTable :: "u32 \<Rightarrow> u32 list \<Rightarrow> PageTable option" where
  "createPageTable n levelBitsArray =
     (if length levelBitsArray < unat n then None
      else do {
        let bitsCopy = take (unat n) levelBitsArray;
        let sumBits = foldl (+) 0 bitsCopy;
        let ob = 32 - sumBits;
        om \<leftarrow> (if ob = 32 then Some (- 1) else do { one \<leftarrow> shl 1 ob; Some (one - 1) });
        (shifts, masks) \<leftarrow> maskLoop bitsCopy 0;
        bits0 \<leftarrow> at bitsCopy 0;
        rootEntries \<leftarrow> shl 1 bits0;
        Some \<lparr>levelCount = n, levelBits = bitsCopy, levelMask = masks, levelShift = shifts,
              offsetBits = ob, offsetMask = om, rootLevel = allocateLevel 0 rootEntries\<rparr> })"

text \<open>
  The statements of \<open>createPageTable\<close> before the allocation of the root: the copied
  level bit-widths, \<open>offsetBits\<close>, \<open>offsetMask\<close>, \<open>levelShift\<close> and \<open>levelMask\<close>.
\<close>

definition createPageTableFields ::
  "u32 \<Rightarrow> u32 list \<Rightarrow> (u32 list \<times> u32 \<times> u32 \<times> u32 list \<times> u32 list) option" where
  "createPageTableFields n levelBitsArray =
     (if length levelBitsArray < unat n then None
      else do {
        let bitsCopy = take (unat n) levelBitsArray;
        let sumBits = foldl (+) 0 bitsCopy;
        let ob = 32 - sumBits;
        om \<leftarrow> (if ob = 32 then Some (- 1) else do { one \<leftarrow> shl 1 ob; Some (one - 1) });
        (shifts, masks) \<leftarrow> maskLoop bitsCopy 0;
        Some (bitsCopy, ob, om, shifts, masks) })"

definition extractVPNFromVirtualAddress :: "u32 \<Rightarrow> u32 \<Rightarrow> u32 \<Rightarrow> u32 option" where
  "extractVPNFromVirtualAddress virtualAddress msk shift = shr (virtualAddress AND msk) shift"

text \<open>
  The walks of \<open>searchMappedPfn\<close> and \<open>insertMapForVpn2Pfn\<close>: the loop over the depth
  \<open>d\<close> with the node \<open>cur\<close> the pointer \<open>curr\<close> stands at. The search returns the
  pointer it found (\<open>None\<close> for \<open>nullptr\<close>) and writes nothing; the insertion returns
  the node with the walked path rebuilt.
\<close>

lemma unat_succ_below: "(d :: u32) < n \<Longrightarrow> unat (d + 1) = Suc (unat d)"
  by unat_arith

function searchLoop :: "PageTable \<Rightarrow> u32 \<Rightarrow> u32 \<Rightarrow> Level \<Rightarrow> Map option option" where
  "searchLoop pt va d cur =
     (if d < levelCount pt then
        do { msk \<leftarrow> at (levelMask pt) d;
             shift \<leftarrow> at (levelShift pt) d;
             idx \<leftarrow> extractVPNFromVirtualAddress va msk shift;
             if d = levelCount pt - 1 then
               (case mapArray cur of
                  None \<Rightarrow> Some None
                | Some ma \<Rightarrow>
                    do { m \<leftarrow> at ma idx;
                         if \<not> valid m \<or> sint (mapFrameNumber m) < 0 then Some None
                         else Some (Some m) })
             else
               (case nextLevelArray cur of
                  None \<Rightarrow> Some None
                | Some nla \<Rightarrow>
                    do { next \<leftarrow> at nla idx;
                         case next of
                           None \<Rightarrow> Some None
                         | Some child \<Rightarrow> searchLoop pt va (d + 1) child }) }
      else Some None)"
  by pat_completeness auto
termination
  by (relation "measure (\<lambda>(pt, va, d, cur). unat (levelCount pt) - unat d)")
     (auto simp add: unat_succ_below word_less_nat_alt)

definition searchMappedPfn :: "PageTable \<Rightarrow> u32 \<Rightarrow> (Map option \<times> PageTable) option" where
  "searchMappedPfn pt va = do { m \<leftarrow> searchLoop pt va 0 (rootLevel pt); Some (m, pt) }"

function insertLoop :: "PageTable \<Rightarrow> u32 \<Rightarrow> cint \<Rightarrow> u32 \<Rightarrow> Level \<Rightarrow> Level option" where
  "insertLoop pt va frame d cur =
     (if d < levelCount pt then
        do { msk \<leftarrow> at (levelMask pt) d;
             shift \<leftarrow> at (levelShift pt) d;
             idx \<leftarrow> extractVPNFromVirtualAddress va msk shift;
             if d = levelCount pt - 1 then
               do { let ma = (case mapArray cur of
                                None \<Rightarrow> replicate (unat (entryCount cur))
                                          \<lparr>mapFrameNumber = - 1, valid = False\<rparr>
                              | Some a \<Rightarrow> a);
                    if unat idx < length ma
                    then Some (Level (depth cur) (entryCount cur) (nextLevelArray cur)
                                 (Some (ma[unat idx := \<lparr>mapFrameNumber = frame,
                                                        valid = (0 \<le> sint frame)\<rparr>])))
                    else None }
             else
               do { let nla = (case nextLevelArray cur of
                                 None \<Rightarrow> replicate (unat (entryCount cur)) None
                               | Some a \<Rightarrow> a);
                    slot \<leftarrow> at nla idx;
                    child \<leftarrow> (case slot of
                                Some c \<Rightarrow> Some c
                              | None \<Rightarrow>
                                  do { bits \<leftarrow> at (levelBits pt) (d + 1);
                                       childEntries \<leftarrow> shl 1 bits;
                                       Some (allocateLevel (d + 1) childEntries) });
                    child' \<leftarrow> insertLoop pt va frame (d + 1) child;
                    Some (Level (depth cur) (entryCount cur)
                            (Some (nla[unat idx := Some child'])) (mapArray cur)) } }
      else Some cur)"
  by pat_completeness auto
termination
  by (relation "measure (\<lambda>(pt, va, frame, d, cur). unat (levelCount pt) - unat d)")
     (auto simp add: unat_succ_below word_less_nat_alt)

definition insertMapForVpn2Pfn :: "PageTable \<Rightarrow> u32 \<Rightarrow> cint \<Rightarrow> PageTable option" where
  "insertMapForVpn2Pfn pt va frame =
     do { root \<leftarrow> insertLoop pt va frame 0 (rootLevel pt);
          Some (pt\<lparr>rootLevel := root\<rparr>) }"

definition getFullVPN :: "PageTable \<Rightarrow> u32 \<Rightarrow> u32 option" where
  "getFullVPN pt va = (if offsetBits pt = 32 then Some 0 else shr va (offsetBits pt))"

definition getOffsetFromVA :: "PageTable \<Rightarrow> u32 \<Rightarrow> u32" where
  "getOffsetFromVA pt va = va AND offsetMask pt"

definition composePhysicalAddress :: "PageTable \<Rightarrow> cint \<Rightarrow> u32 \<Rightarrow> u32 option" where
  "composePhysicalAddress pt frame offset =
     do { hi \<leftarrow> shl frame (offsetBits pt); Some (hi OR offset) }"

text \<open>
  The entry count of \<open>pagetable.cpp\<close>, \<open>countEntriesRecursive\<close>, which no code calls:
  one unit per non-null child slot and one per valid terminal mapping.
\<close>

fun sumCounts :: "u32 option list \<Rightarrow> u32 \<Rightarrow> u32 option" where
  "sumCounts [] s = Some s"
| "sumCounts (None # cs) s = None"
| "sumCounts (Some c # cs) s = sumCounts cs (s + c)"

fun countSlots :: "Level option list \<Rightarrow> u32 \<Rightarrow> u32" where
  "countSlots [] s = s"
| "countSlots (c # cs) s = countSlots cs (if c \<noteq> None then s + 1 else s)"

fun countValid :: "Map list \<Rightarrow> u32 \<Rightarrow> u32" where
  "countValid [] s = s"
| "countValid (m # ms) s = countValid ms (if valid m \<and> 0 \<le> sint (mapFrameNumber m) then s + 1 else s)"

lemma size_child_slot:
  "nextLevelArray lvl = Some nla \<Longrightarrow> c \<in> set (take n nla) \<Longrightarrow>
   size_option size c < Suc (size lvl)"
proof -
  assume a: "nextLevelArray lvl = Some nla" and "c \<in> set (take n nla)"
  then have "c \<in> set nla" by (rule_tac in_set_takeD)
  then have "size_option size c \<le> size_list (size_option size) nla"
    by (rule size_list_estimation') simp
  then show ?thesis using a by (cases lvl) simp
qed

function countEntriesRecursive :: "PageTable \<Rightarrow> Level option \<Rightarrow> u32 option" where
  "countEntriesRecursive pt None = Some 0"
| "countEntriesRecursive pt (Some lvl) =
     (if depth lvl = levelCount pt - 1 then
        (case mapArray lvl of
           None \<Rightarrow> Some 0
         | Some ma \<Rightarrow>
             if length ma < unat (entryCount lvl) then None
             else Some (countValid (take (unat (entryCount lvl)) ma) 0))
      else
        (case nextLevelArray lvl of
           None \<Rightarrow> Some 0
         | Some nla \<Rightarrow>
             if length nla < unat (entryCount lvl) then None
             else sumCounts (map (countEntriesRecursive pt) (take (unat (entryCount lvl)) nla))
                    (countSlots (take (unat (entryCount lvl)) nla) 0)))"
  by pat_completeness auto
termination
  by (relation "measure (\<lambda>(pt, l). size_option size l)") (auto simp add: size_child_slot)


section \<open>The aging replacement engine (replacement.cpp)\<close>

definition initReplacementState :: "u32 \<Rightarrow> u32 \<Rightarrow> ReplacementState" where
  "initReplacementState mf bitInterval =
     \<lparr>maxFrames = mf, bitstringInterval = bitInterval, accessesSinceAging = 0,
      currentTime = 0, nextFreeFrame = 0, loaded = []\<rparr>"

text \<open>\<open>(int)i\<close> for a \<open>size_t\<close> index: the low 32 bits, read as a signed number.\<close>

definition int_of_size :: "nat \<Rightarrow> int" where
  "int_of_size i = sint (word_of_nat i :: 32 word)"

fun findLoadedLoop :: "LoadedPageInfo list \<Rightarrow> nat \<Rightarrow> u32 \<Rightarrow> int" where
  "findLoadedLoop [] i vpn = -1"
| "findLoadedLoop (e # es) i vpn =
     (if fullVPN e = vpn then int_of_size i else findLoadedLoop es (Suc i) vpn)"

definition findLoadedVPN :: "ReplacementState \<Rightarrow> u32 \<Rightarrow> int" where
  "findLoadedVPN rs vpn = findLoadedLoop (loaded rs) 0 vpn"

text \<open>One iteration of the loop of \<open>performAgingUpdate\<close>.\<close>

definition ageEntry :: "LoadedPageInfo \<Rightarrow> LoadedPageInfo" where
  "ageEntry entry =
     (let shifted = drop_bit 1 (ageBits entry);
          aged = (if accessedThisInterval entry then shifted OR push_bit 15 1 else shifted)
      in entry\<lparr>ageBits := aged, accessedThisInterval := False\<rparr>)"

definition performAgingUpdate :: "ReplacementState \<Rightarrow> ReplacementState" where
  "performAgingUpdate rs = rs\<lparr>loaded := map ageEntry (loaded rs)\<rparr>"

definition tickReplacementClock :: "ReplacementState \<Rightarrow> ReplacementState" where
  "tickReplacementClock rs =
     (let rs1 = rs\<lparr>currentTime := currentTime rs + 1\<rparr>;
          rs2 = rs1\<lparr>accessesSinceAging := accessesSinceAging rs1 + 1\<rparr>
      in if accessesSinceAging rs2 \<ge> bitstringInterval rs2
         then (performAgingUpdate rs2)\<lparr>accessesSinceAging := 0\<rparr>
         else rs2)"

text \<open>The loop of \<open>noteFrameAccess\<close> stops at the first matching record.\<close>

fun noteLoop :: "u32 \<Rightarrow> LoadedPageInfo list \<Rightarrow> u32 \<Rightarrow> cint \<Rightarrow> LoadedPageInfo list" where
  "noteLoop now [] vpn frame = []"
| "noteLoop now (entry # es) vpn frame =
     (if fullVPN entry = vpn \<and> frameNumber entry = frame
      then entry\<lparr>lastAccessTime := now, accessedThisInterval := True\<rparr> # es
      else entry # noteLoop now es vpn frame)"

definition noteFrameAccess :: "ReplacementState \<Rightarrow> u32 \<Rightarrow> cint \<Rightarrow> ReplacementState" where
  "noteFrameAccess rs vpn frame = rs\<lparr>loaded := noteLoop (currentTime rs) (loaded rs) vpn frame\<rparr>"

text \<open>
  The scan of \<open>chooseVictimIndex\<close>: the remaining records, the index of the first of
  them, and the three locals \<open>bestAge\<close>, \<open>bestLast\<close> and \<open>bestIdx\<close>.
\<close>

fun chooseVictimLoop :: "LoadedPageInfo list \<Rightarrow> nat \<Rightarrow> u16 \<Rightarrow> u32 \<Rightarrow> int \<Rightarrow> int" where
  "chooseVictimLoop [] i bestAge bestLast bestIdx = bestIdx"
| "chooseVictimLoop (e # es) i bestAge bestLast bestIdx =
     (if ageBits e < bestAge \<or> (ageBits e = bestAge \<and> lastAccessTime e < bestLast)
      then chooseVictimLoop es (Suc i) (ageBits e) (lastAccessTime e) (int_of_size i)
      else chooseVictimLoop es (Suc i) bestAge bestLast bestIdx)"

definition chooseVictimIndex :: "ReplacementState \<Rightarrow> int" where
  "chooseVictimIndex rs =
     (if loaded rs = [] then -1
      else chooseVictimLoop (loaded rs) 0 (- 1) (- 1) (- 1))"

text \<open>
  The two keys the scan compares, as a pair under the lexicographic order: the test of
  the loop is \<open>ageKey e < (bestAge, bestLast)\<close> (lemma \<open>scan_test\<close>).
\<close>

definition ageKey :: "LoadedPageInfo \<Rightarrow> u16 \<times> u32" where
  "ageKey e = (ageBits e, lastAccessTime e)"

text \<open>\<open>rs.loaded[i]\<close> for an \<open>int\<close> index \<open>i\<close>.\<close>

definition atInt :: "'a list \<Rightarrow> int \<Rightarrow> 'a option" where
  "atInt xs i = (if 0 \<le> i \<and> nat i < length xs then Some (xs ! nat i) else None)"

record FaultResult =
  pfn :: cint
  didFault :: bool
  didEvict :: bool
  evictedVPN :: u32
  evictedAgeBits :: u16

definition ensureResidentPage ::
  "PageTable \<Rightarrow> ReplacementState \<Rightarrow> u32 \<Rightarrow> u32 \<Rightarrow> (PageTable \<times> ReplacementState \<times> FaultResult) option" where
  "ensureResidentPage pt rs virtualAddress vpn =
     (let idx = findLoadedVPN rs vpn in
      if 0 \<le> idx then
        do { e \<leftarrow> atInt (loaded rs) idx;
             Some (pt, rs, \<lparr>pfn = frameNumber e, didFault = False, didEvict = False,
                            evictedVPN = 0, evictedAgeBits = 0\<rparr>) }
      else if length (loaded rs) < unat (maxFrames rs) then
        do { let newPFN = nextFreeFrame rs;
             let rs1 = rs\<lparr>nextFreeFrame := nextFreeFrame rs + 1\<rparr>;
             pt1 \<leftarrow> insertMapForVpn2Pfn pt virtualAddress newPFN;
             let info = \<lparr>fullVPN = vpn, frameNumber = newPFN, ageBits = push_bit 15 1,
                         lastAccessTime = currentTime rs1, accessedThisInterval = True\<rparr>;
             Some (pt1, rs1\<lparr>loaded := loaded rs1 @ [info]\<rparr>,
                   \<lparr>pfn = newPFN, didFault = True, didEvict = False,
                    evictedVPN = 0, evictedAgeBits = 0\<rparr>) }
      else
        do { let victimIdx = chooseVictimIndex rs;
             victim \<leftarrow> atInt (loaded rs) victimIdx;
             let reusedPFN = frameNumber victim;
             victimVA \<leftarrow> shl (fullVPN victim) (offsetBits pt);
             pt1 \<leftarrow> insertMapForVpn2Pfn pt victimVA (- 1);
             let victim' = victim\<lparr>fullVPN := vpn, frameNumber := reusedPFN, ageBits := push_bit 15 1,
                                   lastAccessTime := currentTime rs, accessedThisInterval := True\<rparr>;
             pt2 \<leftarrow> insertMapForVpn2Pfn pt1 virtualAddress reusedPFN;
             Some (pt2, rs\<lparr>loaded := (loaded rs)[nat victimIdx := victim']\<rparr>,
                   \<lparr>pfn = reusedPFN, didFault = True, didEvict = True,
                    evictedVPN = fullVPN victim, evictedAgeBits = ageBits victim\<rparr>) })"

section \<open>The entry count of the summary (main.cpp)\<close>

text \<open>
  \<open>countEntriesRecursiveLocal\<close>, whose result \<open>main\<close> passes to \<open>log_summary\<close>: one
  unit per non-null child slot, and for a terminal node with a mapping array all
  \<open>entryCount\<close> slots of the array.
\<close>

function countEntriesRecursiveLocal :: "PageTable \<Rightarrow> Level option \<Rightarrow> u32 option" where
  "countEntriesRecursiveLocal pt None = Some 0"
| "countEntriesRecursiveLocal pt (Some lvl) =
     (if depth lvl = levelCount pt - 1 then
        (case mapArray lvl of None \<Rightarrow> Some 0 | Some ma \<Rightarrow> Some (entryCount lvl))
      else
        (case nextLevelArray lvl of
           None \<Rightarrow> Some 0
         | Some nla \<Rightarrow>
             if length nla < unat (entryCount lvl) then None
             else sumCounts (map (countEntriesRecursiveLocal pt) (take (unat (entryCount lvl)) nla))
                    (countSlots (take (unat (entryCount lvl)) nla) 0)))"
  by pat_completeness auto
termination
  by (relation "measure (\<lambda>(pt, l). size_option size l)") (auto simp add: size_child_slot)

section \<open>Start-up validation (main.cpp)\<close>

text \<open>
  \<open>main\<close> reads its command line with \<open>getopt\<close> and \<open>atoi\<close>. The model takes what
  these return: the options in the order \<open>getopt\<close> yields them, each numeric argument
  as the \<open>int\<close> that \<open>atoi\<close> gave (\<open>OptBad\<close> is the \<open>default\<close> case of the switch), whether
  a trace path is present and \<open>fopen\<close> succeeds on it, and the \<open>atoi\<close> results of the
  remaining arguments, the level bit-widths. A fatal exit (\<open>return 1\<close> after a message
  on \<open>stderr\<close>) is \<open>Inl\<close>; a write past the 32 elements of \<open>tempBits\<close> is undefined.
\<close>

datatype opt = OptN cint | OptF cint | OptB cint | OptL string | OptBad

datatype fatal =
    BadAccessCount
  | BadFrameCount
  | BadInterval
  | BadArgument
  | MissingTrace
  | CannotOpen
  | MissingLevelBits
  | LevelTooSmall u32
  | TooManyBits

text \<open>The locals of \<open>main\<close>; \<open>maxFramesArg\<close> is its local \<open>maxFrames\<close>.\<close>

record MainLocals =
  limitN :: u32
  haveLimitN :: u32
  maxFramesArg :: u32
  haveF :: u32
  bitInterval :: u32
  haveB :: u32
  logMode :: string

record CommandLine =
  opts :: "opt list"
  traceOpens :: "bool option"
  levelArgs :: "cint list"

record Setup =
  locals :: MainLocals
  levelCountArg :: u32
  tempBits :: "u32 list"

definition initialLocals :: MainLocals where
  "initialLocals = \<lparr>limitN = 0, haveLimitN = 0, maxFramesArg = - 1, haveF = 0,
                     bitInterval = 10, haveB = 0, logMode = ''summary''\<rparr>"

fun getoptLoop :: "opt list \<Rightarrow> MainLocals \<Rightarrow> fatal + MainLocals" where
  "getoptLoop [] l = Inr l"
| "getoptLoop (OptN a # os) l =
     (if a < 1 then Inl BadAccessCount else getoptLoop os (l\<lparr>limitN := a, haveLimitN := 1\<rparr>))"
| "getoptLoop (OptF a # os) l =
     (if a < 1 then Inl BadFrameCount else getoptLoop os (l\<lparr>maxFramesArg := a, haveF := 1\<rparr>))"
| "getoptLoop (OptB a # os) l =
     (if a < 1 then Inl BadInterval else getoptLoop os (l\<lparr>bitInterval := a, haveB := 1\<rparr>))"
| "getoptLoop (OptL m # os) l = getoptLoop os (l\<lparr>logMode := m\<rparr>)"
| "getoptLoop (OptBad # os) l = Inl BadArgument"

fun levelLoop :: "cint list \<Rightarrow> u32 list \<Rightarrow> u32 \<Rightarrow> u32 \<Rightarrow> (fatal + u32 list \<times> u32 \<times> u32) option" where
  "levelLoop [] tb nLevels sumBits = Some (Inr (tb, nLevels, sumBits))"
| "levelLoop (bits # as) tb nLevels sumBits =
     (if bits < 1 then Some (Inl (LevelTooSmall nLevels))
      else if 32 \<le> nLevels then None
      else levelLoop as (tb @ [bits]) (nLevels + 1) (sumBits + bits))"

definition startup :: "CommandLine \<Rightarrow> (fatal + Setup) option" where
  "startup cl =
     (case getoptLoop (opts cl) initialLocals of
        Inl f \<Rightarrow> Some (Inl f)
      | Inr l \<Rightarrow>
          (case traceOpens cl of
             None \<Rightarrow> Some (Inl MissingTrace)
           | Some False \<Rightarrow> Some (Inl CannotOpen)
           | Some True \<Rightarrow>
               if levelArgs cl = [] then Some (Inl MissingLevelBits)
               else (case levelLoop (levelArgs cl) [] 0 0 of
                       None \<Rightarrow> None
                     | Some (Inl f) \<Rightarrow> Some (Inl f)
                     | Some (Inr (tb, nLevels, sumBits)) \<Rightarrow>
                         if 28 < sumBits then Some (Inl TooManyBits)
                         else Some (Inr \<lparr>locals = l, levelCountArg = nLevels, tempBits = tb\<rparr>))))"


text \<open>
  The words of the specification: an option's number is non-negative, is positive; a
  command line is acceptable when its options are positive, its trace opens, and its
  level bit-widths are positive and sum to at most 28.
\<close>

fun optNonNegative :: "opt \<Rightarrow> bool" where
  "optNonNegative (OptN a) = (0 \<le> sint a)"
| "optNonNegative (OptF a) = (0 \<le> sint a)"
| "optNonNegative (OptB a) = (0 \<le> sint a)"
| "optNonNegative (OptL m) = True"
| "optNonNegative OptBad = True"

fun optPositive :: "opt \<Rightarrow> bool" where
  "optPositive (OptN a) = (0 < sint a)"
| "optPositive (OptF a) = (0 < sint a)"
| "optPositive (OptB a) = (0 < sint a)"
| "optPositive (OptL m) = True"
| "optPositive OptBad = False"

definition acceptable :: "CommandLine \<Rightarrow> bool" where
  "acceptable cl =
     ((\<forall>x \<in> set (opts cl). optPositive x) \<and> traceOpens cl = Some True \<and> levelArgs cl \<noteq> []
      \<and> (\<forall>a \<in> set (levelArgs cl). 0 < sint a) \<and> sum_list (map unat (levelArgs cl)) \<le> 28)"

section \<open>The main loop (main.cpp)\<close>

record Stats =
  addressesProcessed :: u32
  hits :: u32
  misses :: u32
  evictions :: u32

definition initStats :: Stats where
  "initStats = \<lparr>addressesProcessed = 0, hits = 0, misses = 0, evictions = 0\<rparr>"

record Simulation =
  simTable :: PageTable
  simReplacement :: ReplacementState
  simStats :: Stats

record Event =
  evHit :: bool
  evFrame :: cint
  evPhysicalAddress :: u32
  evFault :: FaultResult

text \<open>One iteration of the main loop, for the address \<open>va\<close> that \<open>NextAddress\<close> delivered.\<close>

definition processAddress :: "Simulation \<Rightarrow> u32 \<Rightarrow> (Simulation \<times> Event) option" where
  "processAddress sim va =
     do { let st1 = (simStats sim)\<lparr>addressesProcessed := addressesProcessed (simStats sim) + 1\<rparr>;
          let rs1 = tickReplacementClock (simReplacement sim);
          (m, pt1) \<leftarrow> searchMappedPfn (simTable sim) va;
          vpn \<leftarrow> getFullVPN pt1 va;
          (pt2, rs2, st2, res) \<leftarrow>
            (case m of
               Some mp \<Rightarrow>
                 Some (pt1, rs1, st1\<lparr>hits := hits st1 + 1\<rparr>,
                       \<lparr>pfn = mapFrameNumber mp, didFault = False, didEvict = False,
                        evictedVPN = 0, evictedAgeBits = 0\<rparr>)
             | None \<Rightarrow>
                 do { let st' = st1\<lparr>misses := misses st1 + 1\<rparr>;
                      (pt', rs', res) \<leftarrow> ensureResidentPage pt1 rs1 va vpn;
                      Some (pt', rs',
                            (if didEvict res then st'\<lparr>evictions := evictions st' + 1\<rparr> else st'),
                            res) });
          let rs3 = noteFrameAccess rs2 vpn (pfn res);
          let offset = getOffsetFromVA pt2 va;
          pa \<leftarrow> composePhysicalAddress pt2 (pfn res) offset;
          Some (\<lparr>simTable = pt2, simReplacement = rs3, simStats = st2\<rparr>,
                \<lparr>evHit = (m \<noteq> None), evFrame = pfn res, evPhysicalAddress = pa, evFault = res\<rparr>) }"

fun runTrace :: "Simulation \<Rightarrow> u32 list \<Rightarrow> (Simulation \<times> Event list) option" where
  "runTrace sim [] = Some (sim, [])"
| "runTrace sim (va # vas) =
     do { (sim1, ev) \<leftarrow> processAddress sim va;
          (sim2, evs) \<leftarrow> runTrace sim1 vas;
          Some (sim2, ev # evs) }"

definition startSimulation :: "u32 list \<Rightarrow> u32 \<Rightarrow> u32 \<Rightarrow> Simulation option" where
  "startSimulation bits mf interval =
     do { pt \<leftarrow> createPageTable (of_nat (length bits)) bits;
          Some \<lparr>simTable = pt, simReplacement = initReplacementState mf interval, simStats = initStats\<rparr> }"

section \<open>The address layout in the words of the specification\<close>

text \<open>
  The specification's layout: the level slices lie most significant first, each as wide
  as its level's bit-width, and the offset takes the rest. \<open>sliceShifts a bs\<close> are the
  positions of the lowest bits of the slices of widths \<open>bs\<close> when \<open>a\<close> bits are already
  used, \<open>sliceMask s b\<close> is the mask of \<open>b\<close> contiguous bits from position \<open>s\<close>, and
  \<open>geometry bs root\<close> is the page table with this layout and the root \<open>root\<close>. A
  configuration is valid when it has a level, every width is positive and the widths sum
  to at most 32.
\<close>

fun sliceShifts :: "nat \<Rightarrow> nat list \<Rightarrow> nat list" where
  "sliceShifts a [] = []"
| "sliceShifts a (b # bs) = (32 - (a + b)) # sliceShifts (a + b) bs"

definition sliceMask :: "nat \<Rightarrow> nat \<Rightarrow> u32" where
  "sliceMask s b = push_bit s (mask b)"

fun sliceMasks :: "nat \<Rightarrow> nat list \<Rightarrow> u32 list" where
  "sliceMasks a [] = []"
| "sliceMasks a (b # bs) = sliceMask (32 - (a + b)) b # sliceMasks (a + b) bs"

definition validBits :: "u32 list \<Rightarrow> bool" where
  "validBits bs = (bs \<noteq> [] \<and> (\<forall>b \<in> set bs. 0 < b) \<and> sum_list (map unat bs) \<le> 32)"

definition geometry :: "u32 list \<Rightarrow> Level \<Rightarrow> PageTable" where
  "geometry bs root =
     \<lparr>levelCount = of_nat (length bs), levelBits = bs,
      levelMask = sliceMasks 0 (map unat bs),
      levelShift = map of_nat (sliceShifts 0 (map unat bs)),
      offsetBits = of_nat (32 - sum_list (map unat bs)),
      offsetMask = mask (32 - sum_list (map unat bs)), rootLevel = root\<rparr>"

text \<open>
  \<open>levelIndex bs d va\<close> is the slice of the address \<open>va\<close> that belongs to level \<open>d\<close>.
  A page table has the layout of \<open>bs\<close> when \<open>bs\<close> is valid, not the single level of 32
  bits, and the table's fields are those of \<open>geometry\<close>. A node is well formed at depth
  \<open>d\<close> when it records that depth, has \<open>2 ^ bs ! d\<close> entries, its arrays have that many
  elements, and its children are well formed one level down: what \<open>allocateLevel\<close> and
  the allocations of \<open>insertMapForVpn2Pfn\<close> establish.
\<close>

definition levelIndex :: "u32 list \<Rightarrow> nat \<Rightarrow> u32 \<Rightarrow> u32" where
  "levelIndex bs d va = take_bit (unat (bs ! d)) (drop_bit (sliceShifts 0 (map unat bs) ! d) va)"

definition hasGeometry :: "u32 list \<Rightarrow> PageTable \<Rightarrow> bool" where
  "hasGeometry bs pt = (validBits bs \<and> hd bs \<noteq> 32 \<and> pt = geometry bs (rootLevel pt))"

fun wfLevel :: "u32 list \<Rightarrow> nat \<Rightarrow> Level \<Rightarrow> bool" where
  "wfLevel bs d (Level dep cnt nla ma) =
     (dep = of_nat d \<and> cnt = 2 ^ unat (bs ! d) \<and>
      (case ma of None \<Rightarrow> True | Some a \<Rightarrow> length a = unat cnt) \<and>
      (case nla of
         None \<Rightarrow> True
       | Some cs \<Rightarrow> length cs = unat cnt \<and>
           (\<forall>c \<in> set cs. case c of None \<Rightarrow> True | Some l \<Rightarrow> wfLevel bs (Suc d) l)))"

definition wfPageTable :: "PageTable \<Rightarrow> bool" where
  "wfPageTable pt = (hasGeometry (levelBits pt) pt \<and> wfLevel (levelBits pt) 0 (rootLevel pt))"

text \<open>
  \<open>translate\<close> is the result of \<open>searchMappedPfn\<close> alone, and \<open>insertAll\<close> a sequence of
  calls of \<open>insertMapForVpn2Pfn\<close>, each with its address and frame.
\<close>

definition translate :: "PageTable \<Rightarrow> u32 \<Rightarrow> Map option option" where
  "translate pt va = map_option fst (searchMappedPfn pt va)"

fun insertAll :: "PageTable \<Rightarrow> (u32 \<times> cint) list \<Rightarrow> PageTable option" where
  "insertAll pt [] = Some pt"
| "insertAll pt ((a, g) # ops) = insertMapForVpn2Pfn pt a g \<bind> (\<lambda>pt'. insertAll pt' ops)"

text \<open>
  The census that the summary's entry count takes, in the words of the amended claim:
  one unit per non-empty child slot of every interior node, and for every terminal node
  with a mapping array the full capacity of the array.
\<close>

fun capacityCensus :: "u32 list \<Rightarrow> nat \<Rightarrow> Level \<Rightarrow> nat" where
  "capacityCensus bs d (Level dep cnt nla ma) =
     (if Suc d = length bs then (case ma of None \<Rightarrow> 0 | Some a \<Rightarrow> unat cnt)
      else (case nla of
              None \<Rightarrow> 0
            | Some cs \<Rightarrow>
                sum_list (map (\<lambda>c. case c of None \<Rightarrow> 0 | Some l \<Rightarrow> Suc (capacityCensus bs (Suc d) l)) cs)))"

text \<open>
  The invariants of a run. \<open>residentInv\<close> is the specification's invariant of the
  resident records: no more of them than the frame budget, and frame numbers and VPNs
  pairwise distinct. \<open>framesInOrder\<close> says how the code keeps the frame numbers distinct:
  the record at index \<open>i\<close> holds frame \<open>i\<close>, and the next free frame is the number of
  records. \<open>consistent\<close> ties the two subsystems: an address translates to a valid
  mapping with frame \<open>F\<close> exactly when a resident record holds its VPN and \<open>F\<close>.
  \<open>resident rs w F\<close> says that a record of \<open>rs\<close> holds VPN \<open>w\<close> and frame \<open>F\<close>, and
  \<open>mapsAs pt R\<close> that the page table maps exactly the pairs of the relation \<open>R\<close>.
\<close>

definition residents :: "ReplacementState \<Rightarrow> (u32 \<times> cint) list" where
  "residents rs = map (\<lambda>e. (fullVPN e, frameNumber e)) (loaded rs)"

definition residentInv :: "ReplacementState \<Rightarrow> bool" where
  "residentInv rs =
     (length (loaded rs) \<le> unat (maxFrames rs)
      \<and> distinct (map frameNumber (loaded rs))
      \<and> distinct (map fullVPN (loaded rs)))"

definition framesInOrder :: "ReplacementState \<Rightarrow> bool" where
  "framesInOrder rs =
     (nextFreeFrame rs = of_nat (length (loaded rs))
      \<and> map frameNumber (loaded rs) = map of_nat [0..<length (loaded rs)])"

definition consistent :: "PageTable \<Rightarrow> ReplacementState \<Rightarrow> bool" where
  "consistent pt rs =
     (\<forall>va m. (translate pt va = Some (Some m))
        = (\<exists>j < length (loaded rs). getFullVPN pt va = Some (fullVPN (loaded rs ! j))
              \<and> m = \<lparr>mapFrameNumber = frameNumber (loaded rs ! j), valid = True\<rparr>))"

definition simInv :: "PageTable \<Rightarrow> ReplacementState \<Rightarrow> bool" where
  "simInv pt rs =
     (wfPageTable pt \<and> sum_list (map unat (levelBits pt)) \<le> 31
      \<and> residentInv rs \<and> framesInOrder rs
      \<and> (\<forall>e \<in> set (loaded rs). \<exists>a. getFullVPN pt a = Some (fullVPN e))
      \<and> consistent pt rs)"

definition resident :: "ReplacementState \<Rightarrow> u32 \<Rightarrow> cint \<Rightarrow> bool" where
  "resident rs w F =
     (\<exists>j < length (loaded rs). fullVPN (loaded rs ! j) = w \<and> frameNumber (loaded rs ! j) = F)"

definition mapsAs :: "PageTable \<Rightarrow> (u32 \<Rightarrow> cint \<Rightarrow> bool) \<Rightarrow> bool" where
  "mapsAs pt R =
     (\<forall>va m. (translate pt va = Some (Some m))
        = (\<exists>w F. getFullVPN pt va = Some w \<and> R w F \<and> m = \<lparr>mapFrameNumber = F, valid = True\<rparr>))"

text \<open>
  Three more predicates of a run. \<open>clockInv rs n\<close>: the clock of \<open>rs\<close> stands at \<open>n\<close> ticks
  and no record carries a later access time. \<open>noted rs w F\<close>: a record of \<open>rs\<close> holds VPN
  \<open>w\<close> and frame \<open>F\<close>, stamped with the current time and marked as accessed, which is
  what \<open>noteFrameAccess\<close> leaves behind when it finds the pair. \<open>stepDefined sim va\<close>: the
  next address \<open>va\<close> either hits, or misses with a free frame left, or misses with a
  victim in reach; otherwise the fault handler indexes the collection of records at
  \<open>-1\<close>.
\<close>

definition clockInv :: "ReplacementState \<Rightarrow> nat \<Rightarrow> bool" where
  "clockInv rs n =
     (unat (currentTime rs) = n \<and> list_all (\<lambda>e. lastAccessTime e \<le> currentTime rs) (loaded rs))"

definition noted :: "ReplacementState \<Rightarrow> u32 \<Rightarrow> cint \<Rightarrow> bool" where
  "noted rs w F =
     (\<exists>j < length (loaded rs). fullVPN (loaded rs ! j) = w \<and> frameNumber (loaded rs ! j) = F
        \<and> lastAccessTime (loaded rs ! j) = currentTime rs \<and> accessedThisInterval (loaded rs ! j))"

definition stepDefined :: "Simulation \<Rightarrow> u32 \<Rightarrow> bool" where
  "stepDefined sim va =
     (translate (simTable sim) va \<noteq> Some None
      \<or> length (loaded (simReplacement sim)) < unat (maxFrames (simReplacement sim))
      \<or> chooseVictimIndex (tickReplacementClock (simReplacement sim)) \<noteq> - 1)"

section \<open>Aging decay\<close>

lemma ageEntry_untouched:
  "\<not> accessedThisInterval e \<Longrightarrow> ageBits (ageEntry e) = drop_bit 1 (ageBits e)"
  by (simp add: ageEntry_def)

lemma ageEntry_age:
  "ageBits (ageEntry e) =
     (if accessedThisInterval e then drop_bit 1 (ageBits e) OR 0x8000 else drop_bit 1 (ageBits e))"
  by (simp add: ageEntry_def Let_def)

lemma tick_fires_iff:
  "accessesSinceAging rs < bitstringInterval rs \<Longrightarrow>
   (bitstringInterval rs \<le> accessesSinceAging rs + 1) = (accessesSinceAging rs + 1 = bitstringInterval rs)"
  using inc_le [of "accessesSinceAging rs" "bitstringInterval rs"] by auto

lemma drop_bit_Suc0_msb_clear: "\<not> bit (drop_bit (Suc 0) (w :: u16)) 15"
  using bit_imp_le_length [of w 16] by (auto simp add: bit_drop_bit_eq)

lemma ageEntry_msb: "bit (ageBits (ageEntry e)) 15 = accessedThisInterval e"
  by (simp add: ageEntry_def Let_def bit_or_iff bit_push_bit_iff drop_bit_Suc0_msb_clear)

lemma ageEntry_low: "take_bit 15 (ageBits (ageEntry e)) = drop_bit 1 (ageBits e)"
proof (rule bit_word_eqI)
  fix n assume "n < LENGTH(16)"
  have a: "bit (ageBits e) (Suc n) \<Longrightarrow> n < 15"
    using bit_imp_le_length [of "ageBits e" "Suc n"] by simp
  have p: "(32768 :: u16) = push_bit 15 1" by simp
  have b: "n < 15 \<Longrightarrow> \<not> bit (32768 :: u16) n"
    unfolding p bit_push_bit_iff by simp
  show "bit (take_bit 15 (ageBits (ageEntry e))) n = bit (drop_bit 1 (ageBits e)) n"
    using a b by (auto simp add: ageEntry_def Let_def bit_take_bit_iff bit_or_iff bit_drop_bit_eq)
qed


lemma tick_decay:
  assumes "accessesSinceAging rs < bitstringInterval rs"
  shows "tickReplacementClock rs =
      (if accessesSinceAging rs + 1 = bitstringInterval rs
       then rs\<lparr>currentTime := currentTime rs + 1, accessesSinceAging := 0,
               loaded := map ageEntry (loaded rs)\<rparr>
       else rs\<lparr>currentTime := currentTime rs + 1,
               accessesSinceAging := accessesSinceAging rs + 1\<rparr>)"
  using tick_fires_iff [OF assms]
  by (simp add: tickReplacementClock_def performAgingUpdate_def Let_def)

lemma ageEntry_fields:
  "fullVPN (ageEntry e) = fullVPN e" "frameNumber (ageEntry e) = frameNumber e"
  "lastAccessTime (ageEntry e) = lastAccessTime e" "\<not> accessedThisInterval (ageEntry e)"
  by (simp_all add: ageEntry_def Let_def)

lemma length_noteLoop [simp]: "length (noteLoop now es v f) = length es"
  by (induction es) auto

lemma noteLoop_other:
  "i < length es \<Longrightarrow> \<not> (fullVPN (es ! i) = v \<and> frameNumber (es ! i) = f) \<Longrightarrow>
   noteLoop now es v f ! i = es ! i"
proof (induction es arbitrary: i)
  case Nil
  then show ?case by simp
next
  case (Cons e es)
  show ?case
  proof (cases i)
    case 0
    with Cons.prems show ?thesis by auto
  next
    case (Suc j)
    with Cons show ?thesis by auto
  qed
qed

lemma one_interval_untouched:
  assumes "unat (accessesSinceAging rs) + length accs = unat (bitstringInterval rs)"
    and "accs \<noteq> []"
    and "i < length (loaded rs)"
    and "\<not> accessedThisInterval (loaded rs ! i)"
    and "\<forall>a \<in> set accs. \<not> (fullVPN (loaded rs ! i) = fst a \<and> frameNumber (loaded rs ! i) = snd a)"
  shows "ageBits (loaded (fold (\<lambda>a s. noteFrameAccess (tickReplacementClock s) (fst a) (snd a)) accs rs) ! i)
           = drop_bit 1 (ageBits (loaded rs ! i))"
  using assms
proof (induction accs arbitrary: rs)
  case Nil
  then show ?case by simp
next
  case (Cons a accs)
  let ?c = "accessesSinceAging rs" and ?n = "bitstringInterval rs"
  have lt: "?c < ?n"
    using Cons.prems(1) by (simp add: word_less_nat_alt)
  have nomatch: "\<not> (fullVPN (loaded rs ! i) = fst a \<and> frameNumber (loaded rs ! i) = snd a)"
    using Cons.prems(5) by simp
  show ?case
  proof (cases "accs = []")
    case True
    then have "unat ?c + 1 = unat ?n" using Cons.prems(1) by simp
    then have fire: "?c + 1 = ?n"
      by unat_arith
    have "loaded (noteFrameAccess (tickReplacementClock rs) (fst a) (snd a)) ! i = ageEntry (loaded rs ! i)"
      using Cons.prems(3) nomatch
      by (simp add: tick_decay [OF lt] fire noteFrameAccess_def noteLoop_other ageEntry_fields)
    then show ?thesis
      using True Cons.prems(4) by (simp add: ageEntry_untouched)
  next
    case False
    then have "unat ?c + 1 < unat ?n" using Cons.prems(1) by (cases accs) auto
    then have nofire: "?c + 1 \<noteq> ?n" and u: "unat (?c + 1) = unat ?c + 1"
      by unat_arith+
    let ?rs' = "noteFrameAccess (tickReplacementClock rs) (fst a) (snd a)"
    have l: "loaded ?rs' ! i = loaded rs ! i" and len: "length (loaded ?rs') = length (loaded rs)"
      and c: "accessesSinceAging ?rs' = ?c + 1" and n: "bitstringInterval ?rs' = ?n"
      using Cons.prems(3) nomatch
      by (simp_all add: tick_decay [OF lt] nofire noteFrameAccess_def noteLoop_other)
    have "ageBits (loaded (fold (\<lambda>a s. noteFrameAccess (tickReplacementClock s) (fst a) (snd a)) accs ?rs') ! i)
           = drop_bit 1 (ageBits (loaded ?rs' ! i))"
      using Cons.prems False by (intro Cons.IH) (simp_all add: l len c n u)
    then show ?thesis by (simp add: l)
  qed
qed


text \<open>
  The counter stays below the interval between ticks: it starts at zero under a positive
  interval, a tick keeps it below, and no other operation writes it.
\<close>

lemma counter_below_init:
  "0 < n \<Longrightarrow>
   accessesSinceAging (initReplacementState mf n) < bitstringInterval (initReplacementState mf n)"
  by (simp add: initReplacementState_def)

lemma counter_below_tick:
  assumes "accessesSinceAging rs < bitstringInterval rs"
  shows "accessesSinceAging (tickReplacementClock rs) < bitstringInterval (tickReplacementClock rs)"
proof (cases "accessesSinceAging rs + 1 = bitstringInterval rs")
  case True
  with assms show ?thesis
    by (simp add: tick_decay [OF assms]) unat_arith
next
  case False
  with assms show ?thesis
    by (simp add: tick_decay [OF assms]) unat_arith
qed

lemma counter_note [simp]:
  "accessesSinceAging (noteFrameAccess rs v f) = accessesSinceAging rs"
  "bitstringInterval (noteFrameAccess rs v f) = bitstringInterval rs"
  by (simp_all add: noteFrameAccess_def)

text \<open>
  C7. Aging decay fires on a clock tick exactly when the accesses-since-aging counter
  reaches the configured interval. It then replaces every resident record by its aged
  copy and resets the counter to zero; otherwise the tick only advances the clock and
  the counter. The aged copy of a record has the old age bitstring shifted right by
  one in its low 15 bits, its most-significant bit set if and only if the record was
  accessed in the interval just ended, and the accessed flag cleared. Consequently a
  record that no access of one full interval touches, and that was not marked accessed
  at its start, ends the interval with its age bitstring shifted right by one and the
  most-significant bit clear.
\<close>

theorem aging_decay:
  assumes "accessesSinceAging rs < bitstringInterval rs"
  shows "tickReplacementClock rs =
      (if accessesSinceAging rs + 1 = bitstringInterval rs
       then rs\<lparr>currentTime := currentTime rs + 1, accessesSinceAging := 0,
               loaded := map ageEntry (loaded rs)\<rparr>
       else rs\<lparr>currentTime := currentTime rs + 1,
               accessesSinceAging := accessesSinceAging rs + 1\<rparr>)
    \<and> (\<forall>e. take_bit 15 (ageBits (ageEntry e)) = drop_bit 1 (ageBits e)
           \<and> bit (ageBits (ageEntry e)) 15 = accessedThisInterval e
           \<and> \<not> accessedThisInterval (ageEntry e)
           \<and> fullVPN (ageEntry e) = fullVPN e \<and> frameNumber (ageEntry e) = frameNumber e
           \<and> lastAccessTime (ageEntry e) = lastAccessTime e)
    \<and> (\<forall>accs i.
          unat (accessesSinceAging rs) + length accs = unat (bitstringInterval rs)
          \<and> accs \<noteq> [] \<and> i < length (loaded rs) \<and> \<not> accessedThisInterval (loaded rs ! i)
          \<and> (\<forall>a \<in> set accs. \<not> (fullVPN (loaded rs ! i) = fst a \<and> frameNumber (loaded rs ! i) = snd a))
          \<longrightarrow> ageBits (loaded (fold (\<lambda>a s. noteFrameAccess (tickReplacementClock s) (fst a) (snd a)) accs rs) ! i)
                = drop_bit 1 (ageBits (loaded rs ! i))
            \<and> \<not> bit (ageBits (loaded (fold (\<lambda>a s. noteFrameAccess (tickReplacementClock s) (fst a) (snd a)) accs rs) ! i)) 15)"
proof (intro conjI allI impI)
  show "tickReplacementClock rs =
      (if accessesSinceAging rs + 1 = bitstringInterval rs
       then rs\<lparr>currentTime := currentTime rs + 1, accessesSinceAging := 0,
               loaded := map ageEntry (loaded rs)\<rparr>
       else rs\<lparr>currentTime := currentTime rs + 1,
               accessesSinceAging := accessesSinceAging rs + 1\<rparr>)"
    by (rule tick_decay [OF assms])
next
  fix accs :: "(u32 \<times> cint) list" and i
  assume h: "unat (accessesSinceAging rs) + length accs = unat (bitstringInterval rs)
          \<and> accs \<noteq> [] \<and> i < length (loaded rs) \<and> \<not> accessedThisInterval (loaded rs ! i)
          \<and> (\<forall>a \<in> set accs. \<not> (fullVPN (loaded rs ! i) = fst a \<and> frameNumber (loaded rs ! i) = snd a))"
  then have eq: "ageBits (loaded (fold (\<lambda>a s. noteFrameAccess (tickReplacementClock s) (fst a) (snd a)) accs rs) ! i)
                = drop_bit 1 (ageBits (loaded rs ! i))"
    by (intro one_interval_untouched) simp_all
  show "ageBits (loaded (fold (\<lambda>a s. noteFrameAccess (tickReplacementClock s) (fst a) (snd a)) accs rs) ! i)
                = drop_bit 1 (ageBits (loaded rs ! i))"
    by (rule eq)
  show "\<not> bit (ageBits (loaded (fold (\<lambda>a s. noteFrameAccess (tickReplacementClock s) (fst a) (snd a)) accs rs) ! i)) 15"
    unfolding eq using drop_bit_Suc0_msb_clear [of "ageBits (loaded rs ! i)"] by simp
qed (simp_all add: ageEntry_low ageEntry_msb ageEntry_fields)

theorem aging_decay_witness:
  "accessesSinceAging
      \<lparr>maxFrames = 2, bitstringInterval = 2, accessesSinceAging = 1, currentTime = 3,
       nextFreeFrame = 2,
       loaded = [\<lparr>fullVPN = 5, frameNumber = 0, ageBits = 0x8001, lastAccessTime = 1,
                  accessedThisInterval = False\<rparr>,
                 \<lparr>fullVPN = 7, frameNumber = 1, ageBits = 0x4000, lastAccessTime = 3,
                  accessedThisInterval = True\<rparr>]\<rparr>
    < bitstringInterval
      \<lparr>maxFrames = 2, bitstringInterval = 2, accessesSinceAging = 1, currentTime = 3,
       nextFreeFrame = 2,
       loaded = [\<lparr>fullVPN = 5, frameNumber = 0, ageBits = 0x8001, lastAccessTime = 1,
                  accessedThisInterval = False\<rparr>,
                 \<lparr>fullVPN = 7, frameNumber = 1, ageBits = 0x4000, lastAccessTime = 3,
                  accessedThisInterval = True\<rparr>]\<rparr>
   \<and> tickReplacementClock
      \<lparr>maxFrames = 2, bitstringInterval = 2, accessesSinceAging = 1, currentTime = 3,
       nextFreeFrame = 2,
       loaded = [\<lparr>fullVPN = 5, frameNumber = 0, ageBits = 0x8001, lastAccessTime = 1,
                  accessedThisInterval = False\<rparr>,
                 \<lparr>fullVPN = 7, frameNumber = 1, ageBits = 0x4000, lastAccessTime = 3,
                  accessedThisInterval = True\<rparr>]\<rparr>
     = \<lparr>maxFrames = 2, bitstringInterval = 2, accessesSinceAging = 0, currentTime = 4,
        nextFreeFrame = 2,
        loaded = [\<lparr>fullVPN = 5, frameNumber = 0, ageBits = 0x4000, lastAccessTime = 1,
                   accessedThisInterval = False\<rparr>,
                  \<lparr>fullVPN = 7, frameNumber = 1, ageBits = 0xA000, lastAccessTime = 3,
                   accessedThisInterval = False\<rparr>]\<rparr>"
proof -
  let ?rs = "\<lparr>maxFrames = 2, bitstringInterval = 2, accessesSinceAging = 1, currentTime = 3,
       nextFreeFrame = 2,
       loaded = [\<lparr>fullVPN = 5, frameNumber = 0, ageBits = 0x8001 :: u16, lastAccessTime = 1,
                  accessedThisInterval = False\<rparr>,
                 \<lparr>fullVPN = 7, frameNumber = 1, ageBits = 0x4000, lastAccessTime = 3,
                  accessedThisInterval = True\<rparr>]\<rparr> :: ReplacementState"
  have h: "accessesSinceAging ?rs < bitstringInterval ?rs" by simp
  from aging_decay [OF h] have "tickReplacementClock ?rs =
      (if accessesSinceAging ?rs + 1 = bitstringInterval ?rs
       then ?rs\<lparr>currentTime := currentTime ?rs + 1, accessesSinceAging := 0,
               loaded := map ageEntry (loaded ?rs)\<rparr>
       else ?rs\<lparr>currentTime := currentTime ?rs + 1,
               accessesSinceAging := accessesSinceAging ?rs + 1\<rparr>)"
    by (rule conjunct1)
  then show ?thesis by (simp add: ageEntry_def)
qed

section \<open>Victim selection\<close>

lemma scan_test: "(ageBits e < bA \<or> (ageBits e = bA \<and> lastAccessTime e < bL)) = (ageKey e < (bA, bL))"
  by (auto simp add: ageKey_def less_prod_def)

lemma chooseVictimLoop_spec:
  "(chooseVictimLoop es i bA bL bI = bI \<and> (\<forall>e \<in> set es. \<not> ageKey e < (bA, bL)))
   \<or> (\<exists>k < length es. chooseVictimLoop es i bA bL bI = int_of_size (i + k)
         \<and> ageKey (es ! k) < (bA, bL)
         \<and> (\<forall>j < length es. ageKey (es ! k) \<le> ageKey (es ! j))
         \<and> (\<forall>j < k. ageKey (es ! k) < ageKey (es ! j)))"
proof (induction es arbitrary: i bA bL bI)
  case Nil
  then show ?case by simp
next
  case (Cons e es)
  show ?case
  proof (cases "ageKey e < (bA, bL)")
    case True
    then have step: "chooseVictimLoop (e # es) i bA bL bI
        = chooseVictimLoop es (Suc i) (ageBits e) (lastAccessTime e) (int_of_size i)"
      by (simp add: scan_test)
    have k: "(ageBits e, lastAccessTime e) = ageKey e" by (simp add: ageKey_def)
    from Cons.IH [of "Suc i" "ageBits e" "lastAccessTime e" "int_of_size i"]
    show ?thesis unfolding k
    proof (elim disjE conjE exE)
      assume a: "chooseVictimLoop es (Suc i) (ageBits e) (lastAccessTime e) (int_of_size i) = int_of_size i"
        and b: "\<forall>x \<in> set es. \<not> ageKey x < ageKey e"
      have "\<forall>j < length es. ageKey e \<le> ageKey (es ! j)"
        using b by (simp add: not_less)
      then have "\<forall>j < length (e # es). ageKey ((e # es) ! 0) \<le> ageKey ((e # es) ! j)"
        by (simp add: All_less_Suc2)
      then show ?thesis using a True step by (intro disjI2 exI [of _ 0]) simp
    next
      fix k
      assume a: "k < length es"
        "chooseVictimLoop es (Suc i) (ageBits e) (lastAccessTime e) (int_of_size i) = int_of_size (Suc i + k)"
        "ageKey (es ! k) < ageKey e"
        "\<forall>j < length es. ageKey (es ! k) \<le> ageKey (es ! j)"
        "\<forall>j < k. ageKey (es ! k) < ageKey (es ! j)"
      have "\<forall>j < length (e # es). ageKey ((e # es) ! Suc k) \<le> ageKey ((e # es) ! j)"
        using a(3,4) by (simp add: All_less_Suc2 less_imp_le)
      moreover have "\<forall>j < Suc k. ageKey ((e # es) ! Suc k) < ageKey ((e # es) ! j)"
        using a(3,5) by (simp add: All_less_Suc2)
      moreover have "ageKey ((e # es) ! Suc k) < (bA, bL)"
        using less_trans [OF a(3) True] by simp
      ultimately show ?thesis using a(1,2) step by (intro disjI2 exI [of _ "Suc k"]) simp
    qed
  next
    case False
    then have step: "chooseVictimLoop (e # es) i bA bL bI = chooseVictimLoop es (Suc i) bA bL bI"
      by (simp add: scan_test)
    from Cons.IH [of "Suc i" bA bL bI]
    show ?thesis
    proof (elim disjE conjE exE)
      assume "chooseVictimLoop es (Suc i) bA bL bI = bI" "\<forall>e \<in> set es. \<not> ageKey e < (bA, bL)"
      then show ?thesis using False step by simp
    next
      fix k
      assume a: "k < length es"
        "chooseVictimLoop es (Suc i) bA bL bI = int_of_size (Suc i + k)"
        "ageKey (es ! k) < (bA, bL)"
        "\<forall>j < length es. ageKey (es ! k) \<le> ageKey (es ! j)"
        "\<forall>j < k. ageKey (es ! k) < ageKey (es ! j)"
      have lt: "ageKey (es ! k) < ageKey e"
      proof (rule ccontr)
        assume "\<not> ageKey (es ! k) < ageKey e"
        then have "ageKey e \<le> ageKey (es ! k)" by (simp add: not_less)
        from le_less_trans [OF this a(3)] False show False by simp
      qed
      have "\<forall>j < length (e # es). ageKey ((e # es) ! Suc k) \<le> ageKey ((e # es) ! j)"
        using a(4) lt by (simp add: All_less_Suc2 less_imp_le)
      moreover have "\<forall>j < Suc k. ageKey ((e # es) ! Suc k) < ageKey ((e # es) ! j)"
        using a(5) lt by (simp add: All_less_Suc2)
      ultimately show ?thesis using a(1,2,3) step by (intro disjI2 exI [of _ "Suc k"]) simp
    qed
  qed
qed


lemma int_of_size_small: "k < 2 ^ 31 \<Longrightarrow> int_of_size k = int k"
  unfolding int_of_size_def
  by (simp add: signed_of_nat signed_take_bit_int_eq_self)

lemma ageKey_below_top: "(ageKey e < (- 1, - 1)) = (ageKey e \<noteq> (- 1, - 1))"
  by (auto simp add: ageKey_def less_prod_def word_order.not_eq_extremum)

lemma chooseVictimIndex_sentinel:
  "\<forall>e \<in> set (loaded rs). ageKey e = (- 1, - 1) \<Longrightarrow> chooseVictimIndex rs = - 1"
  using chooseVictimLoop_spec [of "loaded rs" 0 "- 1" "- 1" "- 1"]
  by (auto simp add: chooseVictimIndex_def ageKey_below_top)

text \<open>
  What the scan selects whenever some record lies below the initial best pair
  \<open>(0xFFFF, 0xFFFFFFFF)\<close>: the record with the least age bitstring, among those the
  one with the least last-access time, and among those the first in storage order.
\<close>

lemma chooseVictimIndex_spec:
  assumes "length (loaded rs) \<le> 2 ^ 31"
    and "\<exists>e \<in> set (loaded rs). ageKey e \<noteq> (- 1, - 1)"
  shows "\<exists>v < length (loaded rs). chooseVictimIndex rs = int v
           \<and> (\<forall>j < length (loaded rs). ageKey (loaded rs ! v) \<le> ageKey (loaded rs ! j))
           \<and> (\<forall>j < v. ageKey (loaded rs ! v) < ageKey (loaded rs ! j))"
proof -
  have ne: "loaded rs \<noteq> []" using assms(2) by auto
  from chooseVictimLoop_spec [of "loaded rs" 0 "- 1" "- 1" "- 1"] assms(2)
  obtain k where k: "k < length (loaded rs)"
      "chooseVictimLoop (loaded rs) 0 (- 1) (- 1) (- 1) = int_of_size k"
      "\<forall>j < length (loaded rs). ageKey (loaded rs ! k) \<le> ageKey (loaded rs ! j)"
      "\<forall>j < k. ageKey (loaded rs ! k) < ageKey (loaded rs ! j)"
    by (auto simp add: ageKey_below_top)
  have "int_of_size k = int k"
    using k(1) assms(1) by (intro int_of_size_small) simp
  then show ?thesis using k ne by (auto simp add: chooseVictimIndex_def)
qed

lemma chooseVictimIndex_range:
  assumes "length (loaded rs) \<le> 2 ^ 31"
  shows "chooseVictimIndex rs = - 1
     \<or> (0 \<le> chooseVictimIndex rs \<and> chooseVictimIndex rs < int (length (loaded rs)))"
proof (cases "\<exists>e \<in> set (loaded rs). ageKey e \<noteq> (- 1, - 1)")
  case True
  from chooseVictimIndex_spec [OF assms True] show ?thesis by auto
next
  case False
  then show ?thesis using chooseVictimIndex_sentinel [of rs] by simp
qed

text \<open>
  C6. Victim selection picks the record with the least age bitstring, then the least
  last-access time, then the lowest storage index. The scan starts from the best pair
  \<open>(0xFFFF, 0xFFFFFFFF)\<close> and index \<open>-1\<close> and replaces them only by a strictly smaller
  pair, so a resident record that carries exactly this pair never becomes the victim:
  with such a record alone in the collection the scan returns \<open>-1\<close>, no record at all.
\<close>

theorem victim_scan_sentinel:
  "chooseVictimIndex
     \<lparr>maxFrames = 1, bitstringInterval = 1, accessesSinceAging = 0, currentTime = 0,
      nextFreeFrame = 1,
      loaded = [\<lparr>fullVPN = 5, frameNumber = 0, ageBits = 0xFFFF, lastAccessTime = 0xFFFFFFFF,
                 accessedThisInterval = False\<rparr>]\<rparr> = - 1"
  by (simp add: chooseVictimIndex_def)


section \<open>Configuration validation\<close>

lemma unsigned_below_one: "0 \<le> sint (a :: cint) \<Longrightarrow> (a = 0) = (\<not> 0 < sint a)"
proof -
  assume nn: "0 \<le> sint a"
  have "(a = 0) = (sint a = 0)" by (simp add: signed_eq_0_iff)
  then show ?thesis using nn by auto
qed

lemma getoptLoop_accepts:
  "\<forall>x \<in> set os. optNonNegative x \<Longrightarrow>
   (\<exists>l'. getoptLoop os l = Inr l') = (\<forall>x \<in> set os. optPositive x)"
proof (induction os arbitrary: l)
  case Nil
  then show ?case by simp
next
  case (Cons x os)
  then show ?case by (cases x) (simp_all add: unsigned_below_one)
qed

lemma levelLoop_result:
  "unat k + length as \<le> 32 \<Longrightarrow>
   levelLoop as tb k sumBits =
     (if \<forall>a \<in> set as. a \<noteq> 0
      then Some (Inr (tb @ as, k + of_nat (length as), sumBits + sum_list as))
      else Some (Inl (LevelTooSmall (k + of_nat (length (takeWhile (\<lambda>a. a \<noteq> 0) as))))))"
proof (induction as arbitrary: tb k sumBits)
  case Nil
  then show ?case by simp
next
  case (Cons a as)
  have lt: "\<not> 32 \<le> k" using Cons.prems by (simp add: word_le_nat_alt)
  have u: "unat (k + 1) = unat k + 1"
    using Cons.prems by (simp add: unat_word_ariths)
  have "levelLoop as (tb @ [a]) (k + 1) (sumBits + a) =
     (if \<forall>a \<in> set as. a \<noteq> 0
      then Some (Inr ((tb @ [a]) @ as, (k + 1) + of_nat (length as), (sumBits + a) + sum_list as))
      else Some (Inl (LevelTooSmall ((k + 1) + of_nat (length (takeWhile (\<lambda>a. a \<noteq> 0) as))))))"
    using Cons.prems u by (intro Cons.IH) simp
  then show ?case using lt by (auto simp add: word_less_1 add.assoc)
qed

lemma unat_sum_list:
  "sum_list (map unat as) < 2 ^ 32 \<Longrightarrow> unat (sum_list as :: u32) = sum_list (map unat as)"
proof (induction as)
  case Nil
  then show ?case by simp
next
  case (Cons a as)
  then have "unat (sum_list as) = sum_list (map unat as)" by simp
  then show ?case using Cons.prems by (simp add: unat_word_ariths)
qed


text \<open>
  C2 (as amended). Validation runs before any simulation state is built: \<open>startup\<close>
  is all that \<open>main\<close> does before \<open>createPageTable\<close>. For a command line whose numbers
  are non-negative, with at most 32 level bit-widths whose sum fits 32 bits, it accepts
  exactly the acceptable ones, positive options, an opened trace and positive level
  bit-widths summing to at most 28, and ends every other run with a fatal message. The
  bound on the sum is 28, not the address width 32.
\<close>

theorem startup_validation:
  assumes "\<forall>x \<in> set (opts cl). optNonNegative x"
    and "\<forall>a \<in> set (levelArgs cl). 0 \<le> sint a"
    and "length (levelArgs cl) \<le> 32"
    and "sum_list (map unat (levelArgs cl)) < 2 ^ 32"
  shows "if acceptable cl
         then \<exists>l. startup cl = Some (Inr \<lparr>locals = l, levelCountArg = of_nat (length (levelArgs cl)),
                                             tempBits = levelArgs cl\<rparr>)
         else \<exists>f. startup cl = Some (Inl f)"
proof -
  have pos: "(\<forall>a \<in> set (levelArgs cl). a \<noteq> 0) = (\<forall>a \<in> set (levelArgs cl). 0 < sint a)"
    using assms(2) by (auto simp add: unsigned_below_one)
  have loop: "levelLoop (levelArgs cl) [] 0 0 =
     (if \<forall>a \<in> set (levelArgs cl). a \<noteq> 0
      then Some (Inr (levelArgs cl, of_nat (length (levelArgs cl)), sum_list (levelArgs cl)))
      else Some (Inl (LevelTooSmall (of_nat (length (takeWhile (\<lambda>a. a \<noteq> 0) (levelArgs cl)))))))"
    using assms(3) levelLoop_result [of 0 "levelArgs cl" "[]" 0] by auto
  have sum: "(28 < sum_list (levelArgs cl)) = (\<not> sum_list (map unat (levelArgs cl)) \<le> 28)"
    using unat_sum_list [OF assms(4)] by (auto simp add: word_less_nat_alt)
  show ?thesis
  proof (cases "getoptLoop (opts cl) initialLocals")
    case (Inl f)
    then have "\<not> (\<forall>x \<in> set (opts cl). optPositive x)"
      using getoptLoop_accepts [OF assms(1), of initialLocals] by auto
    then show ?thesis using Inl by (simp add: acceptable_def startup_def)
  next
    case (Inr l)
    then have "\<forall>x \<in> set (opts cl). optPositive x"
      using getoptLoop_accepts [OF assms(1), of initialLocals] by auto
    then show ?thesis using Inr loop sum pos
      by (auto simp add: acceptable_def startup_def split: option.splits bool.splits)
  qed
qed


theorem startup_validation_witness:
  "acceptable \<lparr>opts = [OptF 40, OptB 10], traceOpens = Some True, levelArgs = [4, 4, 10]\<rparr>
   \<and> startup \<lparr>opts = [OptF 40, OptB 10], traceOpens = Some True, levelArgs = [4, 4, 10]\<rparr>
     = Some (Inr \<lparr>locals = \<lparr>limitN = 0, haveLimitN = 0, maxFramesArg = 40, haveF = 1,
                              bitInterval = 10, haveB = 1, logMode = ''summary''\<rparr>,
                   levelCountArg = 3, tempBits = [4, 4, 10]\<rparr>)"
proof -
  let ?cl = "\<lparr>opts = [OptF 40, OptB 10], traceOpens = Some True, levelArgs = [4, 4, 10]\<rparr>"
  have a: "acceptable ?cl" by (simp add: acceptable_def)
  have "\<forall>x \<in> set (opts ?cl). optNonNegative x" "\<forall>a \<in> set (levelArgs ?cl). 0 \<le> sint a"
    "length (levelArgs ?cl) \<le> 32" "sum_list (map unat (levelArgs ?cl)) < 2 ^ 32"
    by simp_all
  from startup_validation [OF this] a
  obtain l where "startup ?cl = Some (Inr \<lparr>locals = l, levelCountArg = of_nat (length (levelArgs ?cl)),
                                             tempBits = levelArgs ?cl\<rparr>)"
    by auto
  moreover have "startup ?cl
     = Some (Inr \<lparr>locals = \<lparr>limitN = 0, haveLimitN = 0, maxFramesArg = 40, haveF = 1,
                              bitInterval = 10, haveB = 1, logMode = ''summary''\<rparr>,
                   levelCountArg = 3, tempBits = [4, 4, 10]\<rparr>)"
    by code_simp
  ultimately show ?thesis using a by simp
qed

text \<open>
  The claim as stated fails: the level bit-widths 16 and 13 are positive and sum to 29,
  within the 32-bit address width, and the run is refused.
\<close>

theorem startup_rejects_29_bits:
  "sum_list (map unat [16, 13 :: cint]) \<le> 32
   \<and> startup \<lparr>opts = [], traceOpens = Some True, levelArgs = [16, 13]\<rparr> = Some (Inl TooManyBits)"
  by code_simp

text \<open>
  Outside the amended claim: the casts to \<open>unsigned int\<close> come before the tests
  \<open>< 1\<close>, so a negative frame budget passes as a large unsigned one.
\<close>

lemma startup_negative_budget:
  "startup \<lparr>opts = [OptF (- 3)], traceOpens = Some True, levelArgs = [4, 8, 8]\<rparr>
     = Some (Inr \<lparr>locals = \<lparr>limitN = 0, haveLimitN = 0, maxFramesArg = 4294967293, haveF = 1,
                              bitInterval = 10, haveB = 0, logMode = ''summary''\<rparr>,
                   levelCountArg = 3, tempBits = [4, 8, 8]\<rparr>)"
  by code_simp

section \<open>Table construction\<close>

lemma shl_Some: "n < 32 \<Longrightarrow> shl x n = Some (push_bit (unat n) x)"
  by (simp add: shl_def)

lemma shr_Some: "n < 32 \<Longrightarrow> shr x n = Some (drop_bit (unat n) x)"
  by (simp add: shr_def)

lemma maskLoop_step:
  assumes "0 < b" and "unat acc + unat b \<le> 32"
  shows "(if b = 32 then Some (- 1) else shl 1 b \<bind> (\<lambda>one. shl (one - 1) (32 - (acc + b))))
           = Some (sliceMask (32 - (unat acc + unat b)) (unat b))"
    and "unat (acc + b) = unat acc + unat b"
    and "unat (32 - (acc + b)) = 32 - (unat acc + unat b)"
proof -
  show s: "unat (acc + b) = unat acc + unat b"
    using assms(2) by (simp add: unat_word_ariths)
  have le: "acc + b \<le> 32" using assms(2) s by (simp add: word_le_nat_alt)
  show u: "unat (32 - (acc + b)) = 32 - (unat acc + unat b)"
    using le s by (simp add: unat_sub)
  show "(if b = 32 then Some (- 1) else shl 1 b \<bind> (\<lambda>one. shl (one - 1) (32 - (acc + b))))
           = Some (sliceMask (32 - (unat acc + unat b)) (unat b))"
  proof (cases "b = 32")
    case True
    then have "unat acc = 0" using assms(2) by simp
    then show ?thesis using True by (simp add: sliceMask_def minus_1_eq_mask)
  next
    case False
    then have "unat b \<noteq> 32" by (simp add: word_unat_eq_iff)
    then have b32: "unat b < 32" using assms(2) by simp
    then have lt: "b < 32" by (simp add: word_less_nat_alt)
    have "0 < unat b" using assms(1) by (simp add: word_less_nat_alt)
    then have "unat (32 - (acc + b)) < 32" using u by simp
    then have lt2: "32 - (acc + b) < 32" by (simp add: word_less_nat_alt)
    have one: "(2 :: u32) ^ unat b - 1 = mask (unat b)"
      by (simp add: mask_eq_exp_minus_1)
    show ?thesis using False lt lt2
      by (simp add: shl_Some one sliceMask_def u)
  qed
qed

lemma maskLoop_spec:
  "\<forall>b \<in> set bs. 0 < b \<Longrightarrow> unat acc + sum_list (map unat bs) \<le> 32 \<Longrightarrow>
   maskLoop bs acc =
     Some (map of_nat (sliceShifts (unat acc) (map unat bs)),
           sliceMasks (unat acc) (map unat bs))"
proof (induction bs arbitrary: acc)
  case Nil
  then show ?case by simp
next
  case (Cons b bs)
  have b: "0 < b" and le: "unat acc + unat b \<le> 32" using Cons.prems by simp_all
  note st = maskLoop_step [OF b le]
  have "maskLoop bs (acc + b) =
     Some (map of_nat (sliceShifts (unat (acc + b)) (map unat bs)),
           sliceMasks (unat (acc + b)) (map unat bs))"
    using Cons.prems st(2) by (intro Cons.IH) simp_all
  moreover have "32 - (acc + b) = of_nat (32 - (unat acc + unat b))"
    using st(3) by (simp add: word_unat_eq_iff unat_of_nat)
  ultimately show ?case using st(1) st(2) by (simp add: Let_def)
qed


lemma bit_sliceMask:
  "s + b \<le> 32 \<Longrightarrow> bit (sliceMask s b) k = (s \<le> k \<and> k < s + b)"
  by (auto simp add: sliceMask_def bit_push_bit_iff bit_mask_iff)

lemma slices_cover:
  "a + sum_list bs \<le> 32 \<Longrightarrow>
   length (filter (\<lambda>m. bit m k) (sliceMasks a bs))
     = (if 32 - (a + sum_list bs) \<le> k \<and> k < 32 - a then 1 else 0)"
proof (induction bs arbitrary: a)
  case Nil
  then show ?case by simp
next
  case (Cons b bs)
  have le: "(a + b) + sum_list bs \<le> 32" using Cons.prems by simp
  have hd: "bit (sliceMask (32 - (a + b)) b) k = (32 - (a + b) \<le> k \<and> k < 32 - a)"
    using Cons.prems by (subst bit_sliceMask) auto
  show ?case using Cons.IH [OF le] hd Cons.prems by auto
qed

lemma length_sliceShifts [simp]: "length (sliceShifts a bs) = length bs"
  by (induction bs arbitrary: a) auto

lemma sliceShifts_nth:
  "i < length bs \<Longrightarrow> sliceShifts a bs ! i = 32 - (a + sum_list (take (Suc i) bs))"
proof (induction bs arbitrary: a i)
  case Nil
  then show ?case by simp
next
  case (Cons b bs)
  then show ?case by (cases i) (simp_all add: add.assoc)
qed

lemma validBits_length: "validBits bs \<Longrightarrow> length bs \<le> sum_list (map unat bs)"
proof -
  have "(\<forall>b \<in> set bs. 0 < b) \<Longrightarrow> length bs \<le> sum_list (map unat bs)" for bs :: "u32 list"
  proof (induction bs)
    case Nil
    then show ?case by simp
  next
    case (Cons b bs)
    then have "0 < unat b" by (simp add: word_less_nat_alt)
    then show ?case using Cons by simp
  qed
  then show "validBits bs \<Longrightarrow> length bs \<le> sum_list (map unat bs)"
    by (simp add: validBits_def)
qed

lemma foldl_add_sum_list: "foldl (+) (s :: u32) bs = s + sum_list bs"
  by (induction bs arbitrary: s) (simp_all add: add.assoc)

lemma createPageTable_valid:
  assumes "validBits bs" and "hd bs \<noteq> 32"
  shows "createPageTable (of_nat (length bs)) bs
           = Some (geometry bs (allocateLevel 0 (2 ^ unat (hd bs))))"
proof -
  let ?S = "sum_list (map unat bs)"
  have ne: "bs \<noteq> []" and pos: "\<forall>b \<in> set bs. 0 < b" and S: "?S \<le> 32"
    using assms(1) by (simp_all add: validBits_def)
  have len: "length bs \<le> 32" using validBits_length [OF assms(1)] S by simp
  then have ulen: "unat (of_nat (length bs) :: u32) = length bs"
    by (simp add: unat_of_nat)
  have usum: "unat (sum_list bs) = ?S"
    using S by (intro unat_sum_list) simp
  have hdpos: "0 < unat (hd bs)" using ne pos by (cases bs) (simp_all add: word_less_nat_alt)
  have hdle: "unat (hd bs) \<le> ?S" using ne by (cases bs) simp_all
  then have Spos: "0 < ?S" using hdpos by simp
  have sumle: "sum_list bs \<le> 32" using usum S by (simp add: word_le_nat_alt)
  have uob: "unat (32 - sum_list bs) = 32 - ?S"
    using sumle usum by (simp add: unat_sub)
  then have ob: "32 - sum_list bs = of_nat (32 - ?S)"
    by (simp add: word_unat_eq_iff unat_of_nat)
  have ob32: "sum_list bs \<noteq> 0"
  proof
    assume "sum_list bs = 0"
    then have "unat (sum_list bs) = 0" by (simp only: unat_0)
    with usum Spos show False by (simp only:)
  qed
  have oblt: "32 - sum_list bs < 32" using uob Spos by (simp add: word_less_nat_alt)
  have om: "shl 1 (32 - sum_list bs) \<bind> (\<lambda>one. Some (one - 1)) = Some (mask (32 - ?S))"
    using oblt uob by (simp add: shl_Some mask_eq_exp_minus_1)
  have ml: "maskLoop bs 0 =
     Some (map of_nat (sliceShifts 0 (map unat bs)),
           sliceMasks 0 (map unat bs))"
    using maskLoop_spec [of bs 0] pos S by simp
  have "unat (hd bs) \<noteq> 32" using assms(2) by (simp add: word_unat_eq_iff)
  then have "unat (hd bs) < 32" using hdle S by simp
  then have hdlt: "hd bs < 32" by (simp add: word_less_nat_alt)
  have at0: "at bs 0 = Some (hd bs)" using ne by (cases bs) (simp_all add: at_def)
  show ?thesis
    using ulen ob32 om ml at0 hdlt ob
    by (simp add: createPageTable_def Let_def foldl_add_sum_list shl_Some geometry_def)
qed

lemma geometry_partition:
  assumes "validBits bs" and "k < 32"
  shows "length (filter (\<lambda>m. bit m k) (offsetMask (geometry bs root) # levelMask (geometry bs root))) = 1"
proof -
  let ?S = "sum_list (map unat bs)"
  have S: "?S \<le> 32" using assms(1) by (simp add: validBits_def)
  have "length (filter (\<lambda>m. bit m k) (sliceMasks 0 (map unat bs)))
     = (if 32 - ?S \<le> k \<and> k < 32 then 1 else 0)"
    using slices_cover [of 0 "map unat bs" k] S by simp
  moreover have "bit (mask (32 - ?S) :: u32) k = (k < 32 - ?S)"
    by (auto simp add: bit_mask_iff)
  ultimately show ?thesis using assms(2) by (auto simp add: geometry_def)
qed


lemma createPageTable_fields:
  "createPageTable n levelBitsArray =
     createPageTableFields n levelBitsArray \<bind> (\<lambda>(bitsCopy, ob, om, shifts, masks).
       at bitsCopy 0 \<bind> (\<lambda>bits0. shl 1 bits0 \<bind> (\<lambda>rootEntries.
         Some \<lparr>levelCount = n, levelBits = bitsCopy, levelMask = masks, levelShift = shifts,
               offsetBits = ob, offsetMask = om, rootLevel = allocateLevel 0 rootEntries\<rparr>)))"
  by (auto simp add: createPageTable_def createPageTableFields_def Let_def
      split: Option.bind_splits prod.splits)

lemma createPageTableFields_valid:
  assumes "validBits bs"
  shows "createPageTableFields (of_nat (length bs)) bs
           = Some (bs, of_nat (32 - sum_list (map unat bs)), mask (32 - sum_list (map unat bs)),
                   map of_nat (sliceShifts 0 (map unat bs)), sliceMasks 0 (map unat bs))"
proof -
  let ?S = "sum_list (map unat bs)"
  have ne: "bs \<noteq> []" and pos: "\<forall>b \<in> set bs. 0 < b" and S: "?S \<le> 32"
    using assms(1) by (simp_all add: validBits_def)
  have len: "length bs \<le> 32" using validBits_length [OF assms(1)] S by simp
  then have ulen: "unat (of_nat (length bs) :: u32) = length bs"
    by (simp add: unat_of_nat)
  have usum: "unat (sum_list bs) = ?S"
    using S by (intro unat_sum_list) simp
  have hdpos: "0 < unat (hd bs)" using ne pos by (cases bs) (simp_all add: word_less_nat_alt)
  have hdle: "unat (hd bs) \<le> ?S" using ne by (cases bs) simp_all
  then have Spos: "0 < ?S" using hdpos by simp
  have sumle: "sum_list bs \<le> 32" using usum S by (simp add: word_le_nat_alt)
  have uob: "unat (32 - sum_list bs) = 32 - ?S"
    using sumle usum by (simp add: unat_sub)
  then have ob: "32 - sum_list bs = of_nat (32 - ?S)"
    by (simp add: word_unat_eq_iff unat_of_nat)
  have ob32: "sum_list bs \<noteq> 0"
  proof
    assume "sum_list bs = 0"
    then have "unat (sum_list bs) = 0" by (simp only: unat_0)
    with usum Spos show False by (simp only:)
  qed
  have oblt: "32 - sum_list bs < 32" using uob Spos by (simp add: word_less_nat_alt)
  have om: "shl 1 (32 - sum_list bs) \<bind> (\<lambda>one. Some (one - 1)) = Some (mask (32 - ?S))"
    using oblt uob by (simp add: shl_Some mask_eq_exp_minus_1)
  have ml: "maskLoop bs 0 =
     Some (map of_nat (sliceShifts 0 (map unat bs)),
           sliceMasks 0 (map unat bs))"
    using maskLoop_spec [of bs 0] pos S by simp
  show ?thesis
    using ulen ob32 om ml ob
    by (simp add: createPageTableFields_def Let_def foldl_add_sum_list)
qed

lemma sliceMasks_nth:
  "i < length bs \<Longrightarrow> sliceMasks a bs ! i = sliceMask (sliceShifts a bs ! i) (bs ! i)"
proof (induction bs arbitrary: a i)
  case Nil
  then show ?case by simp
next
  case (Cons b bs)
  then show ?case by (cases i) simp_all
qed

lemma length_sliceMasks [simp]: "length (sliceMasks a bs) = length bs"
  by (induction bs arbitrary: a) auto

lemma sum_take_le: "sum_list (take k (xs :: nat list)) \<le> sum_list xs"
proof -
  have "sum_list xs = sum_list (take k xs) + sum_list (drop k xs)"
    by (metis append_take_drop_id sum_list.append)
  then show ?thesis by simp
qed

lemma nth_le_sum_take: "i < length (xs :: nat list) \<Longrightarrow> xs ! i \<le> sum_list (take (Suc i) xs)"
  by (simp add: take_Suc_conv_app_nth)

text \<open>The facts about one level of a valid layout.\<close>

lemma slice_facts:
  assumes "validBits bs" and "d < length bs"
  shows "0 < unat (bs ! d)"
    and "sliceShifts 0 (map unat bs) ! d + unat (bs ! d) \<le> 32"
    and "sliceShifts 0 (map unat bs) ! d < 32"
    and "length bs \<le> 32"
proof -
  let ?ns = "map unat bs"
  have S: "sum_list ?ns \<le> 32" and pos: "\<forall>b \<in> set bs. 0 < b"
    using assms(1) by (simp_all add: validBits_def)
  show p: "0 < unat (bs ! d)" using pos assms(2) by (simp add: word_less_nat_alt)
  have a: "unat (bs ! d) \<le> sum_list (take (Suc d) ?ns)"
    using nth_le_sum_take [of d ?ns] assms(2) by simp
  have b: "sum_list (take (Suc d) ?ns) \<le> 32"
    using sum_take_le [of "Suc d" ?ns] S by simp
  have s: "sliceShifts 0 ?ns ! d = 32 - sum_list (take (Suc d) ?ns)"
    using sliceShifts_nth [of d ?ns 0] assms(2) by simp
  show "sliceShifts 0 ?ns ! d + unat (bs ! d) \<le> 32" using a b s by simp
  show "sliceShifts 0 ?ns ! d < 32" using a b s p by simp
  show "length bs \<le> 32" using validBits_length [OF assms(1)] S by simp
qed

text \<open>
  C3. For every valid configuration, positive level bit-widths summing to at most 32,
  \<open>createPageTable\<close> derives its fields without an undefined shift: the offset width
  and the level bit-widths sum to 32, the offset mask is the low bits of that width,
  the mask of every level is the contiguous slice of its width at its shift, and every
  one of the 32 address bits lies in exactly one of the offset mask and the level
  masks. The single level of 32 bits gets the mask of all ones and the shift 0 through
  the test \<open>bits == 32\<close>. For every valid configuration but that one the function
  returns the table with these fields and a root of \<open>2 ^ levelBits[0]\<close> entries.
\<close>

theorem createPageTable_partition:
  assumes "validBits bs"
  shows "\<exists>ob om shifts masks.
      createPageTableFields (of_nat (length bs)) bs = Some (bs, ob, om, shifts, masks)
    \<and> sum_list (map unat bs) + unat ob = 32
    \<and> om = mask (unat ob)
    \<and> length shifts = length bs \<and> length masks = length bs
    \<and> (\<forall>i < length bs. unat (shifts ! i) + unat (bs ! i) \<le> 32
           \<and> masks ! i = push_bit (unat (shifts ! i)) (mask (unat (bs ! i))))
    \<and> (\<forall>k < 32. length (filter (\<lambda>m. bit m k) (om # masks)) = 1)
    \<and> (bs = [32] \<longrightarrow> ob = 0 \<and> om = 0 \<and> shifts = [0] \<and> masks = [- 1])
    \<and> (hd bs \<noteq> 32 \<longrightarrow>
          createPageTable (of_nat (length bs)) bs
            = Some \<lparr>levelCount = of_nat (length bs), levelBits = bs, levelMask = masks,
                    levelShift = shifts, offsetBits = ob, offsetMask = om,
                    rootLevel = allocateLevel 0 (2 ^ unat (hd bs))\<rparr>)"
proof -
  let ?S = "sum_list (map unat bs)"
  define ob :: u32 where "ob = of_nat (32 - ?S)"
  define om :: u32 where "om = mask (32 - ?S)"
  define shifts :: "u32 list" where "shifts = map of_nat (sliceShifts 0 (map unat bs))"
  define masks where "masks = sliceMasks 0 (map unat bs)"
  have S: "?S \<le> 32" using assms by (simp add: validBits_def)
  have fields: "createPageTableFields (of_nat (length bs)) bs = Some (bs, ob, om, shifts, masks)"
    unfolding ob_def om_def shifts_def masks_def using assms by (rule createPageTableFields_valid)
  have uob: "unat ob = 32 - ?S" by (simp add: ob_def unat_of_nat)
  have total: "?S + unat ob = 32" using S uob by simp
  have offset: "om = mask (unat ob)" by (simp add: om_def uob)
  have lens: "length shifts = length bs" "length masks = length bs"
    by (simp_all add: shifts_def masks_def)
  have slices: "unat (shifts ! i) + unat (bs ! i) \<le> 32
           \<and> masks ! i = push_bit (unat (shifts ! i)) (mask (unat (bs ! i)))"
    if i: "i < length bs" for i
  proof -
    note f = slice_facts [OF assms i]
    have sh: "unat (shifts ! i) = sliceShifts 0 (map unat bs) ! i"
      using i f(3) by (simp add: shifts_def unat_of_nat)
    have "masks ! i = sliceMask (sliceShifts 0 (map unat bs) ! i) (unat (bs ! i))"
      using i by (simp add: masks_def sliceMasks_nth)
    then show ?thesis using f(2) sh by (simp add: sliceMask_def)
  qed
  have cover: "length (filter (\<lambda>m. bit m k) (om # masks)) = 1" if "k < 32" for k
    using geometry_partition [OF assms that, of "allocateLevel 0 0"]
    by (simp add: geometry_def om_def masks_def)
  have edge: "ob = 0 \<and> om = 0 \<and> shifts = [0] \<and> masks = [- 1]" if "bs = [32]"
    using that by (simp add: ob_def om_def shifts_def masks_def sliceMask_def minus_1_eq_mask)
  have table: "createPageTable (of_nat (length bs)) bs
            = Some \<lparr>levelCount = of_nat (length bs), levelBits = bs, levelMask = masks,
                    levelShift = shifts, offsetBits = ob, offsetMask = om,
                    rootLevel = allocateLevel 0 (2 ^ unat (hd bs))\<rparr>" if "hd bs \<noteq> 32"
    using createPageTable_valid [OF assms that]
    by (simp add: geometry_def ob_def om_def shifts_def masks_def)
  show ?thesis
    using fields total offset lens slices cover edge table by blast
qed

theorem createPageTable_partition_witness:
  "validBits [32] \<and> createPageTableFields 1 [32] = Some ([32], 0, 0, [0], [- 1])
   \<and> validBits [4, 8, 8]
   \<and> createPageTable 3 [4, 8, 8]
       = Some \<lparr>levelCount = 3, levelBits = [4, 8, 8],
               levelMask = [0xF0000000, 0x0FF00000, 0x000FF000], levelShift = [28, 20, 12],
               offsetBits = 12, offsetMask = 0xFFF, rootLevel = allocateLevel 0 16\<rparr>"
proof -
  have v1: "validBits [32]" by (simp add: validBits_def)
  have v2: "validBits [4, 8, 8]" by (simp add: validBits_def)
  from createPageTable_partition [OF v1]
  obtain ob om shifts masks where
    "createPageTableFields (of_nat (length [32 :: u32])) [32] = Some ([32], ob, om, shifts, masks)"
    "[32 :: u32] = [32] \<longrightarrow> ob = 0 \<and> om = 0 \<and> shifts = [0] \<and> masks = [- 1]"
    by blast
  then have one: "createPageTableFields 1 [32] = Some ([32], 0, 0, [0], [- 1])" by simp
  from createPageTable_partition [OF v2]
  obtain ob om shifts masks where
    f: "createPageTableFields (of_nat (length [4, 8, 8 :: u32])) [4, 8, 8]
          = Some ([4, 8, 8], ob, om, shifts, masks)"
    and t: "hd [4, 8, 8 :: u32] \<noteq> 32 \<longrightarrow>
          createPageTable (of_nat (length [4, 8, 8 :: u32])) [4, 8, 8]
            = Some \<lparr>levelCount = of_nat (length [4, 8, 8 :: u32]), levelBits = [4, 8, 8],
                    levelMask = masks, levelShift = shifts, offsetBits = ob, offsetMask = om,
                    rootLevel = allocateLevel 0 (2 ^ unat (hd [4, 8, 8 :: u32]))\<rparr>"
    by blast
  have "createPageTableFields 3 [4, 8, 8]
      = Some ([4, 8, 8], 12, 0xFFF, [28, 20, 12], [0xF0000000, 0x0FF00000, 0x000FF000])"
    by code_simp
  with f have "ob = 12" "om = 0xFFF" "shifts = [28, 20, 12]"
      "masks = [0xF0000000, 0x0FF00000, 0x000FF000]" by simp_all
  with t have "createPageTable 3 [4, 8, 8]
       = Some \<lparr>levelCount = 3, levelBits = [4, 8, 8],
               levelMask = [0xF0000000, 0x0FF00000, 0x000FF000], levelShift = [28, 20, 12],
               offsetBits = 12, offsetMask = 0xFFF, rootLevel = allocateLevel 0 16\<rparr>"
    by simp
  then show ?thesis using v1 v2 one by simp
qed

text \<open>
  What follows the derivation of the fields in \<open>createPageTable\<close> is the sizing of
  the root, \<open>1u << levelBits[0]\<close>, which at the single level of 32 bits is a shift by
  the width of the type, so the function as a whole is undefined there. \<open>main\<close> never asks for
  that table: it refuses a sum of level bit-widths above 28, and every command line it
  accepts, with at most 32 level bit-widths whose sum fits 32 bits, gets its table.
\<close>

lemma createPageTable_full_width:
  "maskLoop [32] 0 = Some ([0], [- 1]) \<and> shl 1 32 = None \<and> createPageTable 1 [32] = None"
  by (simp add: createPageTable_def shl_def at_def Let_def)

lemma startup_refuses_full_width:
  "startup \<lparr>opts = [], traceOpens = Some True, levelArgs = [32]\<rparr> = Some (Inl TooManyBits)"
  by code_simp

lemma startup_table_defined:
  assumes acc: "startup cl = Some (Inr s)"
    and len: "length (levelArgs cl) \<le> 32"
    and fits: "sum_list (map unat (levelArgs cl)) < 2 ^ 32"
  shows "validBits (tempBits s)" and "sum_list (map unat (tempBits s)) \<le> 28"
    and "hd (tempBits s) \<noteq> 32"
    and "createPageTable (levelCountArg s) (tempBits s)
           = Some (geometry (tempBits s) (allocateLevel 0 (2 ^ unat (hd (tempBits s)))))"
proof -
  have loop: "levelLoop (levelArgs cl) [] 0 0 =
     (if \<forall>a \<in> set (levelArgs cl). a \<noteq> 0
      then Some (Inr (levelArgs cl, of_nat (length (levelArgs cl)), sum_list (levelArgs cl)))
      else Some (Inl (LevelTooSmall (of_nat (length (takeWhile (\<lambda>a. a \<noteq> 0) (levelArgs cl)))))))"
    using len levelLoop_result [of 0 "levelArgs cl" "[]" 0] by auto
  from acc have ne: "levelArgs cl \<noteq> []"
    by (auto simp add: startup_def split: sum.splits option.splits bool.splits if_splits)
  from acc loop have nz: "\<forall>a \<in> set (levelArgs cl). a \<noteq> 0"
    by (auto simp add: startup_def split: sum.splits option.splits bool.splits if_splits)
  from acc loop nz have small: "\<not> 28 < sum_list (levelArgs cl)"
    and tb: "tempBits s = levelArgs cl"
    and n: "levelCountArg s = of_nat (length (levelArgs cl))"
    by (auto simp add: startup_def split: sum.splits option.splits bool.splits if_splits)
  have "unat (sum_list (levelArgs cl)) \<le> 28"
    using small by (simp add: word_less_nat_alt)
  then show S: "sum_list (map unat (tempBits s)) \<le> 28"
    using unat_sum_list [OF fits] by (simp add: tb)
  have "\<forall>b \<in> set (levelArgs cl). 0 < b" using nz by (simp add: word_neq_0_conv)
  then show v: "validBits (tempBits s)" using ne S by (simp add: validBits_def tb)
  have "unat (hd (tempBits s)) \<le> sum_list (map unat (tempBits s))"
    using ne by (cases "levelArgs cl") (simp_all add: tb)
  then have "unat (hd (tempBits s)) \<noteq> unat (32 :: u32)" using S by simp
  then show h: "hd (tempBits s) \<noteq> 32" by auto
  show "createPageTable (levelCountArg s) (tempBits s)
           = Some (geometry (tempBits s) (allocateLevel 0 (2 ^ unat (hd (tempBits s)))))"
    using createPageTable_valid [OF v h] by (simp add: n tb)
qed

section \<open>The walks of the trie\<close>

lemma extract_slice:
  assumes "s + b \<le> 32" and "s < 32"
  shows "extractVPNFromVirtualAddress va (sliceMask s b) (of_nat s) = Some (take_bit b (drop_bit s va))"
proof -
  have u: "unat (of_nat s :: u32) = s" using assms(2) by (simp add: unat_of_nat)
  then have lt: "(of_nat s :: u32) < 32" using assms(2) by (simp add: word_less_nat_alt)
  have "drop_bit s (va AND sliceMask s b) = take_bit b (drop_bit s va)"
    by (rule bit_word_eqI)
       (auto simp add: sliceMask_def bit_drop_bit_eq bit_and_iff bit_push_bit_iff bit_mask_iff
          bit_take_bit_iff dest: bit_imp_le_length)
  then show ?thesis using lt u by (simp add: extractVPNFromVirtualAddress_def shr_Some)
qed

lemma unat_2p: "b < 32 \<Longrightarrow> unat ((2 :: u32) ^ b) = 2 ^ b"
proof -
  assume b: "b < 32"
  have "(2 :: u32) ^ b = of_nat (2 ^ b)" by simp
  moreover have "(2 :: nat) ^ b < 2 ^ 32" using b by (intro power_strict_increasing) simp_all
  ultimately show ?thesis by (simp only: unat_of_nat) simp
qed

lemma unat_take_bit_less: "b < 32 \<Longrightarrow> unat (take_bit b (w :: u32)) < unat ((2 :: u32) ^ b)"
proof -
  assume b: "b < 32"
  have "unat (take_bit b w) = take_bit b (unat w)" by (simp add: unsigned_take_bit_eq)
  also have "\<dots> < 2 ^ b" by (simp add: take_bit_eq_mod)
  also have "(2 :: nat) ^ b = unat ((2 :: u32) ^ b)" using b by (simp add: unat_2p)
  finally show ?thesis .
qed


declare searchLoop.simps [simp del] insertLoop.simps [simp del]

lemma geometry_fields:
  assumes "hasGeometry bs pt"
  shows "levelCount pt = of_nat (length bs)" and "levelBits pt = bs"
    and "levelMask pt = sliceMasks 0 (map unat bs)"
    and "levelShift pt = map of_nat (sliceShifts 0 (map unat bs))"
    and "offsetBits pt = of_nat (32 - sum_list (map unat bs))"
    and "offsetMask pt = mask (32 - sum_list (map unat bs))"
    and "validBits bs"
proof -
  have g: "pt = geometry bs (rootLevel pt)" and v: "validBits bs"
    using assms by (simp_all add: hasGeometry_def)
  show "validBits bs" by (rule v)
  show "levelCount pt = of_nat (length bs)" by (subst g) (simp add: geometry_def)
  show "levelBits pt = bs" by (subst g) (simp add: geometry_def)
  show "levelMask pt = sliceMasks 0 (map unat bs)" by (subst g) (simp add: geometry_def)
  show "levelShift pt = map of_nat (sliceShifts 0 (map unat bs))" by (subst g) (simp add: geometry_def)
  show "offsetBits pt = of_nat (32 - sum_list (map unat bs))" by (subst g) (simp add: geometry_def)
  show "offsetMask pt = mask (32 - sum_list (map unat bs))" by (subst g) (simp add: geometry_def)
qed

lemma at_nth: "i < length xs \<Longrightarrow> length xs \<le> 32 \<Longrightarrow> at xs (of_nat i) = Some (xs ! i)"
  by (simp add: at_def unat_of_nat)

lemma walk_context:
  assumes "hasGeometry bs pt" and "d < length bs"
  shows "(of_nat d :: u32) < levelCount pt"
    and "((of_nat d :: u32) = levelCount pt - 1) = (Suc d = length bs)"
    and "(of_nat d :: u32) + 1 = of_nat (Suc d)"
    and "at (levelMask pt) (of_nat d) \<bind> (\<lambda>msk. at (levelShift pt) (of_nat d) \<bind>
           (\<lambda>shift. extractVPNFromVirtualAddress va msk shift \<bind> k))
         = k (levelIndex bs d va)"
proof -
  note f = geometry_fields [OF assms(1)]
  note sl = slice_facts [OF f(7) assms(2)]
  have ud: "unat (of_nat d :: u32) = d" using sl(4) assms(2) by (simp add: unat_of_nat)
  have un: "unat (of_nat (length bs) :: u32) = length bs" using sl(4) by (simp add: unat_of_nat)
  show "(of_nat d :: u32) < levelCount pt"
    using ud un assms(2) by (simp add: f(1) word_less_nat_alt)
  have "unat (of_nat (length bs) - 1 :: u32) = length bs - 1"
    using un assms(2) by (simp add: unat_sub word_le_nat_alt)
  then show "((of_nat d :: u32) = levelCount pt - 1) = (Suc d = length bs)"
    using ud assms(2) by (auto simp add: f(1) word_unat_eq_iff)
  show "(of_nat d :: u32) + 1 = of_nat (Suc d)" by simp
  have m: "at (levelMask pt) (of_nat d)
      = Some (sliceMask (sliceShifts 0 (map unat bs) ! d) (unat (bs ! d)))"
    using assms(2) sl(4) by (simp add: f(3) at_nth sliceMasks_nth)
  have s: "at (levelShift pt) (of_nat d) = Some (of_nat (sliceShifts 0 (map unat bs) ! d))"
    using assms(2) sl(4) by (simp add: f(4) at_nth)
  show "at (levelMask pt) (of_nat d) \<bind> (\<lambda>msk. at (levelShift pt) (of_nat d) \<bind>
           (\<lambda>shift. extractVPNFromVirtualAddress va msk shift \<bind> k))
         = k (levelIndex bs d va)"
    using extract_slice [OF sl(2) sl(3), of va] by (simp add: m s levelIndex_def)
qed

lemma searchLoop_step:
  assumes "hasGeometry bs pt" and "d < length bs"
  shows "searchLoop pt va (of_nat d) cur =
     (if Suc d = length bs then
        (case mapArray cur of
           None \<Rightarrow> Some None
         | Some ma \<Rightarrow>
             do { m \<leftarrow> at ma (levelIndex bs d va);
                  if \<not> valid m \<or> sint (mapFrameNumber m) < 0 then Some None
                  else Some (Some m) })
      else
        (case nextLevelArray cur of
           None \<Rightarrow> Some None
         | Some nla \<Rightarrow>
             do { next \<leftarrow> at nla (levelIndex bs d va);
                  case next of
                    None \<Rightarrow> Some None
                  | Some child \<Rightarrow> searchLoop pt va (of_nat (Suc d)) child }))"
  by (subst searchLoop.simps)
     (simp only: walk_context [OF assms] if_True)


lemma later_level_narrow:
  assumes "validBits bs" and "Suc d < length bs"
  shows "bs ! Suc d < 32"
proof -
  let ?ns = "map unat bs"
  obtain b rest where bs: "bs = b # rest" using assms(2) by (cases bs) auto
  have "0 < unat b" using assms(1) bs by (simp add: validBits_def word_less_nat_alt)
  moreover have "unat (rest ! d) \<le> sum_list (map unat rest)"
    using assms(2) bs elem_le_sum_list [of d "map unat rest"] by simp
  moreover have "unat b + sum_list (map unat rest) \<le> 32"
    using assms(1) bs by (simp add: validBits_def)
  ultimately have "unat (bs ! Suc d) < 32" using bs by simp
  then show ?thesis by (simp add: word_less_nat_alt)
qed

lemma first_level_narrow:
  assumes "hasGeometry bs pt"
  shows "hd bs < 32" and "bs ! 0 = hd bs"
proof -
  have v: "validBits bs" and h: "hd bs \<noteq> 32" using assms by (simp_all add: hasGeometry_def)
  then obtain b rest where bs: "bs = b # rest" by (cases bs) (auto simp add: validBits_def)
  have "unat b \<le> 32" using v bs by (simp add: validBits_def)
  moreover have "unat b \<noteq> 32" using h bs by (simp add: word_unat_eq_iff)
  ultimately show "hd bs < 32" using bs by (simp add: word_less_nat_alt)
  show "bs ! 0 = hd bs" using bs by simp
qed

lemma level_narrow:
  assumes "hasGeometry bs pt" and "d < length bs"
  shows "bs ! d < 32" and "unat (bs ! d) < 32"
proof -
  show "bs ! d < 32"
  proof (cases d)
    case 0
    then show ?thesis using first_level_narrow [OF assms(1)] by simp
  next
    case (Suc e)
    then show ?thesis using later_level_narrow [of bs e] assms by (simp add: hasGeometry_def)
  qed
  then show "unat (bs ! d) < 32" by (simp add: word_less_nat_alt)
qed

lemma child_allocation:
  assumes "hasGeometry bs pt" and "Suc d < length bs"
  shows "at (levelBits pt) (of_nat (Suc d)) \<bind>
           (\<lambda>bits. shl 1 bits \<bind> (\<lambda>childEntries. Some (allocateLevel (of_nat (Suc d)) childEntries)))
         = Some (allocateLevel (of_nat (Suc d)) (2 ^ unat (bs ! Suc d)))"
proof -
  note f = geometry_fields [OF assms(1)]
  have len: "length bs \<le> 32" using validBits_length [OF f(7)] f(7) by (simp add: validBits_def)
  have "at (levelBits pt) (of_nat (Suc d)) = Some (bs ! Suc d)"
    using assms(2) len by (simp only: f(2) at_nth)
  then show ?thesis
    using level_narrow(1) [OF assms] by (simp add: shl_Some)
qed

lemma index_in_range:
  assumes "hasGeometry bs pt" and "d < length bs"
  shows "unat (levelIndex bs d va) < unat ((2 :: u32) ^ unat (bs ! d))"
  unfolding levelIndex_def using level_narrow(2) [OF assms] by (rule unat_take_bit_less)

lemma insertLoop_step:
  assumes "hasGeometry bs pt" and "d < length bs"
  shows "insertLoop pt va f (of_nat d) cur =
     (if Suc d = length bs then
        (if unat (levelIndex bs d va)
              < length (case mapArray cur of
                          None \<Rightarrow> replicate (unat (entryCount cur)) \<lparr>mapFrameNumber = - 1, valid = False\<rparr>
                        | Some a \<Rightarrow> a)
         then Some (Level (depth cur) (entryCount cur) (nextLevelArray cur)
                (Some ((case mapArray cur of
                          None \<Rightarrow> replicate (unat (entryCount cur)) \<lparr>mapFrameNumber = - 1, valid = False\<rparr>
                        | Some a \<Rightarrow> a)
                       [unat (levelIndex bs d va) := \<lparr>mapFrameNumber = f, valid = (0 \<le> sint f)\<rparr>])))
         else None)
      else
        do { slot \<leftarrow> at (case nextLevelArray cur of
                          None \<Rightarrow> replicate (unat (entryCount cur)) None
                        | Some a \<Rightarrow> a) (levelIndex bs d va);
             child \<leftarrow> (case slot of
                         Some c \<Rightarrow> Some c
                       | None \<Rightarrow> Some (allocateLevel (of_nat (Suc d)) (2 ^ unat (bs ! Suc d))));
             child' \<leftarrow> insertLoop pt va f (of_nat (Suc d)) child;
             Some (Level (depth cur) (entryCount cur)
                     (Some ((case nextLevelArray cur of
                               None \<Rightarrow> replicate (unat (entryCount cur)) None
                             | Some a \<Rightarrow> a)
                            [unat (levelIndex bs d va) := Some child'])) (mapArray cur)) })"
proof (cases "Suc d = length bs")
  case True
  show ?thesis
    by (subst insertLoop.simps) (simp only: walk_context [OF assms] if_True Let_def if_P [OF True])
next
  case False
  then have lt: "Suc d < length bs" using assms(2) by simp
  show ?thesis
    by (subst insertLoop.simps)
       (simp only: walk_context [OF assms] if_True Let_def if_not_P [OF False]
          child_allocation [OF assms(1) lt])
qed


lemma wfLevel_sel:
  "wfLevel bs d cur =
     (depth cur = of_nat d \<and> entryCount cur = 2 ^ unat (bs ! d) \<and>
      (case mapArray cur of None \<Rightarrow> True | Some a \<Rightarrow> length a = unat (entryCount cur)) \<and>
      (case nextLevelArray cur of
         None \<Rightarrow> True
       | Some cs \<Rightarrow> length cs = unat (entryCount cur) \<and>
           (\<forall>c \<in> set cs. case c of None \<Rightarrow> True | Some l \<Rightarrow> wfLevel bs (Suc d) l)))"
  by (cases cur) (simp split: option.splits)

lemma wfLevel_allocate: "wfLevel bs d (allocateLevel (of_nat d) (2 ^ unat (bs ! d)))"
  by (simp add: allocateLevel_def)

lemma at_in_range: "unat i < length xs \<Longrightarrow> at xs i = Some (xs ! unat i)"
  by (simp add: at_def)

lemma searchLoop_leaf:
  assumes "hasGeometry bs pt" and "Suc d = length bs"
  shows "searchLoop pt va (of_nat d) cur =
        (case mapArray cur of
           None \<Rightarrow> Some None
         | Some ma \<Rightarrow>
             do { m \<leftarrow> at ma (levelIndex bs d va);
                  if \<not> valid m \<or> sint (mapFrameNumber m) < 0 then Some None
                  else Some (Some m) })"
proof -
  have d: "d < length bs" using assms(2) by simp
  show ?thesis by (simp only: searchLoop_step [OF assms(1) d] if_P [OF assms(2)])
qed

lemma searchLoop_inner:
  assumes "hasGeometry bs pt" and "Suc d < length bs"
  shows "searchLoop pt va (of_nat d) cur =
        (case nextLevelArray cur of
           None \<Rightarrow> Some None
         | Some nla \<Rightarrow>
             do { next \<leftarrow> at nla (levelIndex bs d va);
                  case next of
                    None \<Rightarrow> Some None
                  | Some child \<Rightarrow> searchLoop pt va (of_nat (Suc d)) child })"
proof -
  have d: "d < length bs" and ne: "Suc d \<noteq> length bs" using assms(2) by simp_all
  show ?thesis by (simp only: searchLoop_step [OF assms(1) d] if_not_P [OF ne])
qed

lemma insertLoop_leaf:
  assumes "hasGeometry bs pt" and "Suc d = length bs"
  shows "insertLoop pt va f (of_nat d) cur =
        (if unat (levelIndex bs d va)
              < length (case mapArray cur of
                          None \<Rightarrow> replicate (unat (entryCount cur)) \<lparr>mapFrameNumber = - 1, valid = False\<rparr>
                        | Some a \<Rightarrow> a)
         then Some (Level (depth cur) (entryCount cur) (nextLevelArray cur)
                (Some ((case mapArray cur of
                          None \<Rightarrow> replicate (unat (entryCount cur)) \<lparr>mapFrameNumber = - 1, valid = False\<rparr>
                        | Some a \<Rightarrow> a)
                       [unat (levelIndex bs d va) := \<lparr>mapFrameNumber = f, valid = (0 \<le> sint f)\<rparr>])))
         else None)"
proof -
  have d: "d < length bs" using assms(2) by simp
  show ?thesis by (simp only: insertLoop_step [OF assms(1) d] if_P [OF assms(2)])
qed

lemma insertLoop_inner:
  assumes "hasGeometry bs pt" and "Suc d < length bs"
  shows "insertLoop pt va f (of_nat d) cur =
        do { slot \<leftarrow> at (case nextLevelArray cur of
                          None \<Rightarrow> replicate (unat (entryCount cur)) None
                        | Some a \<Rightarrow> a) (levelIndex bs d va);
             child \<leftarrow> (case slot of
                         Some c \<Rightarrow> Some c
                       | None \<Rightarrow> Some (allocateLevel (of_nat (Suc d)) (2 ^ unat (bs ! Suc d))));
             child' \<leftarrow> insertLoop pt va f (of_nat (Suc d)) child;
             Some (Level (depth cur) (entryCount cur)
                     (Some ((case nextLevelArray cur of
                               None \<Rightarrow> replicate (unat (entryCount cur)) None
                             | Some a \<Rightarrow> a)
                            [unat (levelIndex bs d va) := Some child'])) (mapArray cur)) }"
proof -
  have d: "d < length bs" and ne: "Suc d \<noteq> length bs" using assms(2) by simp_all
  show ?thesis by (simp only: insertLoop_step [OF assms(1) d] if_not_P [OF ne])
qed

lemma searchLoop_total:
  assumes "hasGeometry bs pt"
  shows "d < length bs \<Longrightarrow> wfLevel bs d cur \<Longrightarrow>
         \<exists>r. searchLoop pt va (of_nat d) cur = Some r
            \<and> (\<forall>m. r = Some m \<longrightarrow> valid m \<and> 0 \<le> sint (mapFrameNumber m))"
proof (induction "length bs - Suc d" arbitrary: d cur)
  case 0
  then have last: "Suc d = length bs" by simp
  note idx = index_in_range [OF assms "0.prems"(1), of va]
  show ?case
  proof (cases "mapArray cur")
    case None
    then show ?thesis by (simp add: searchLoop_leaf [OF assms last])
  next
    case (Some ma)
    then have "length ma = unat ((2 :: u32) ^ unat (bs ! d))"
      using "0.prems"(2) by (simp add: wfLevel_sel)
    then have "at ma (levelIndex bs d va) = Some (ma ! unat (levelIndex bs d va))"
      using idx by (simp add: at_in_range)
    then show ?thesis
      using Some by (auto simp add: searchLoop_leaf [OF assms last])
  qed
next
  case (Suc k)
  then have inner: "Suc d < length bs" and ne: "Suc d \<noteq> length bs" by simp_all
  note idx = index_in_range [OF assms Suc.prems(1), of va]
  show ?case
  proof (cases "nextLevelArray cur")
    case None
    then show ?thesis by (simp add: searchLoop_inner [OF assms inner])
  next
    case (Some nla)
    then have len: "length nla = unat ((2 :: u32) ^ unat (bs ! d))"
      and ch: "\<forall>c \<in> set nla. case c of None \<Rightarrow> True | Some l \<Rightarrow> wfLevel bs (Suc d) l"
      using Suc.prems(2) by (simp_all add: wfLevel_sel)
    have a: "at nla (levelIndex bs d va) = Some (nla ! unat (levelIndex bs d va))"
      using idx len by (simp add: at_in_range)
    show ?thesis
    proof (cases "nla ! unat (levelIndex bs d va)")
      case None
      then show ?thesis using Some a by (simp add: searchLoop_inner [OF assms inner])
    next
      case (Some child)
      then have "Some child \<in> set nla" using idx len by (metis nth_mem)
      then have "wfLevel bs (Suc d) child" using ch by force
      moreover have "k = length bs - Suc (Suc d)" using Suc.hyps(2) by simp
      ultimately have "\<exists>r. searchLoop pt va (of_nat (Suc d)) child = Some r
            \<and> (\<forall>m. r = Some m \<longrightarrow> valid m \<and> 0 \<le> sint (mapFrameNumber m))"
        using inner by (intro Suc.hyps(1))
      then show ?thesis
        using Some \<open>nextLevelArray cur = Some nla\<close> a
        by (simp add: searchLoop_inner [OF assms inner] del: of_nat_Suc)
    qed
  qed
qed


lemma insertLoop_wf_lookup:
  assumes "hasGeometry bs pt"
  shows "d < length bs \<Longrightarrow> wfLevel bs d cur \<Longrightarrow>
         \<exists>cur'. insertLoop pt va f (of_nat d) cur = Some cur' \<and> wfLevel bs d cur'
            \<and> searchLoop pt va (of_nat d) cur'
                = Some (if 0 \<le> sint f then Some \<lparr>mapFrameNumber = f, valid = True\<rparr> else None)"
proof (induction "length bs - Suc d" arbitrary: d cur)
  case 0
  then have last: "Suc d = length bs" by simp
  note idx = index_in_range [OF assms "0.prems"(1), of va]
  let ?ma = "case mapArray cur of
               None \<Rightarrow> replicate (unat (entryCount cur)) \<lparr>mapFrameNumber = - 1, valid = False\<rparr>
             | Some a \<Rightarrow> a"
  let ?new = "\<lparr>mapFrameNumber = f, valid = (0 \<le> sint f)\<rparr>"
  let ?cur' = "Level (depth cur) (entryCount cur) (nextLevelArray cur)
                 (Some (?ma[unat (levelIndex bs d va) := ?new]))"
  have cnt: "entryCount cur = 2 ^ unat (bs ! d)" using "0.prems"(2) by (simp add: wfLevel_sel)
  have len: "length ?ma = unat (entryCount cur)"
    using "0.prems"(2) by (simp add: wfLevel_sel split: option.splits)
  then have inr: "unat (levelIndex bs d va) < length ?ma" using idx cnt by simp
  then have ins: "insertLoop pt va f (of_nat d) cur = Some ?cur'"
    by (simp only: insertLoop_leaf [OF assms last] if_True)
  have wf: "wfLevel bs d ?cur'"
    using wfLevel_sel [THEN iffD1, OF "0.prems"(2)] len by (simp split: option.splits)
  have a: "at (?ma[unat (levelIndex bs d va) := ?new]) (levelIndex bs d va) = Some ?new"
    using inr by (simp add: at_def)
  have "searchLoop pt va (of_nat d) ?cur'
      = Some (if 0 \<le> sint f then Some \<lparr>mapFrameNumber = f, valid = True\<rparr> else None)"
    by (simp add: searchLoop_leaf [OF assms last] a)
  then show ?case by (intro exI [of _ ?cur'] conjI ins wf)
next
  case (Suc k)
  then have inner: "Suc d < length bs" and ne: "Suc d \<noteq> length bs" by simp_all
  note idx = index_in_range [OF assms Suc.prems(1), of va]
  let ?nla = "case nextLevelArray cur of
                None \<Rightarrow> replicate (unat (entryCount cur)) None
              | Some a \<Rightarrow> a"
  let ?i = "unat (levelIndex bs d va)"
  let ?child = "case ?nla ! ?i of
                  Some c \<Rightarrow> c
                | None \<Rightarrow> allocateLevel (of_nat (Suc d)) (2 ^ unat (bs ! Suc d))"
  have cnt: "entryCount cur = 2 ^ unat (bs ! d)" using Suc.prems(2) by (simp add: wfLevel_sel)
  have len: "length ?nla = unat (entryCount cur)"
    using Suc.prems(2) by (simp add: wfLevel_sel split: option.splits)
  then have inr: "?i < length ?nla" using idx cnt by simp
  have ch: "\<forall>c \<in> set ?nla. case c of None \<Rightarrow> True | Some l \<Rightarrow> wfLevel bs (Suc d) l"
    using Suc.prems(2) by (auto simp add: wfLevel_sel split: option.splits)
  have mem: "?nla ! ?i \<in> set ?nla" using inr by (rule nth_mem)
  have wfc: "wfLevel bs (Suc d) ?child"
  proof (cases "?nla ! ?i")
    case None
    then show ?thesis by (simp only: option.case wfLevel_allocate)
  next
    case (Some c)
    from bspec [OF ch mem] Some have "wfLevel bs (Suc d) c" by simp
    then show ?thesis using Some by simp
  qed
  have "k = length bs - Suc (Suc d)" using Suc.hyps(2) by simp
  then obtain child' where c': "insertLoop pt va f (of_nat (Suc d)) ?child = Some child'"
      "wfLevel bs (Suc d) child'"
      "searchLoop pt va (of_nat (Suc d)) child'
         = Some (if 0 \<le> sint f then Some \<lparr>mapFrameNumber = f, valid = True\<rparr> else None)"
    using Suc.hyps(1) [of "Suc d" ?child] inner wfc by blast
  let ?cur' = "Level (depth cur) (entryCount cur) (Some (?nla[?i := Some child'])) (mapArray cur)"
  have a: "at ?nla (levelIndex bs d va) = Some (?nla ! ?i)" using inr by (simp add: at_def)
  have ins: "insertLoop pt va f (of_nat d) cur = Some ?cur'"
    using c'(1) by (cases "?nla ! ?i") (simp_all add: insertLoop_inner [OF assms inner] a del: of_nat_Suc)
  have "\<forall>c \<in> set (?nla[?i := Some child']). case c of None \<Rightarrow> True | Some l \<Rightarrow> wfLevel bs (Suc d) l"
    using ch c'(2) set_update_subset_insert [of ?nla ?i "Some child'"] by auto
  then have wf: "wfLevel bs d ?cur'"
    using wfLevel_sel [THEN iffD1, OF Suc.prems(2)] len by (simp split: option.splits)
  have b: "at (?nla[?i := Some child']) (levelIndex bs d va) = Some (Some child')"
    using inr by (simp add: at_def)
  have "searchLoop pt va (of_nat d) ?cur'
      = Some (if 0 \<le> sint f then Some \<lparr>mapFrameNumber = f, valid = True\<rparr> else None)"
    by (simp add: searchLoop_inner [OF assms inner] b c'(3) del: of_nat_Suc)
  then show ?case by (intro exI [of _ ?cur'] conjI ins wf)
qed


lemma searchLoop_fresh:
  assumes "hasGeometry bs pt" and "d < length bs"
  shows "searchLoop pt va (of_nat d) (allocateLevel k n) = Some None"
  by (simp add: searchLoop_step [OF assms] allocateLevel_def)

lemma insertLoop_other:
  assumes "hasGeometry bs pt"
  shows "d < length bs \<Longrightarrow> wfLevel bs d cur \<Longrightarrow>
         \<exists>e. d \<le> e \<and> e < length bs \<and> levelIndex bs e va' \<noteq> levelIndex bs e va \<Longrightarrow>
         insertLoop pt va f (of_nat d) cur = Some cur' \<Longrightarrow>
         searchLoop pt va' (of_nat d) cur' = searchLoop pt va' (of_nat d) cur"
proof (induction "length bs - Suc d" arbitrary: d cur cur')
  case 0
  then have last: "Suc d = length bs" by simp
  note idx = index_in_range [OF assms "0.prems"(1), of va]
  note idx' = index_in_range [OF assms "0.prems"(1), of va']
  let ?ma = "case mapArray cur of
               None \<Rightarrow> replicate (unat (entryCount cur)) \<lparr>mapFrameNumber = - 1, valid = False\<rparr>
             | Some a \<Rightarrow> a"
  let ?new = "\<lparr>mapFrameNumber = f, valid = (0 \<le> sint f)\<rparr>"
  from "0.prems"(3) last have "levelIndex bs d va' \<noteq> levelIndex bs d va"
    by (metis Suc_leI le_antisym not_less_eq_eq)
  then have neq: "unat (levelIndex bs d va') \<noteq> unat (levelIndex bs d va)"
    by (simp add: word_unat_eq_iff)
  have cnt: "entryCount cur = 2 ^ unat (bs ! d)" using "0.prems"(2) by (simp add: wfLevel_sel)
  have len: "length ?ma = unat (entryCount cur)"
    using "0.prems"(2) by (simp add: wfLevel_sel split: option.splits)
  then have inr: "unat (levelIndex bs d va) < length ?ma"
    and inr': "unat (levelIndex bs d va') < length ?ma" using idx idx' cnt by simp_all
  have cur': "cur' = Level (depth cur) (entryCount cur) (nextLevelArray cur)
                 (Some (?ma[unat (levelIndex bs d va) := ?new]))"
    using "0.prems"(4) inr by (simp only: insertLoop_leaf [OF assms last] if_True option.inject)
  have a: "at (?ma[unat (levelIndex bs d va) := ?new]) (levelIndex bs d va')
             = Some (?ma ! unat (levelIndex bs d va'))"
    using inr' neq by (simp add: at_def)
  show ?case
  proof (cases "mapArray cur")
    case None
    then have "?ma ! unat (levelIndex bs d va') = \<lparr>mapFrameNumber = - 1, valid = False\<rparr>"
      using inr' by simp
    then show ?thesis using None a
      by (simp add: cur' searchLoop_leaf [OF assms last])
  next
    case (Some ma0)
    then have "at ma0 (levelIndex bs d va') = Some (?ma ! unat (levelIndex bs d va'))"
      using inr' by (simp add: at_def)
    then show ?thesis using Some a
      by (simp add: cur' searchLoop_leaf [OF assms last])
  qed
next
  case (Suc k)
  then have inner: "Suc d < length bs" by simp
  note idx = index_in_range [OF assms Suc.prems(1), of va]
  note idx' = index_in_range [OF assms Suc.prems(1), of va']
  let ?nla = "case nextLevelArray cur of
                None \<Rightarrow> replicate (unat (entryCount cur)) None
              | Some a \<Rightarrow> a"
  let ?i = "unat (levelIndex bs d va)"
  let ?i' = "unat (levelIndex bs d va')"
  let ?child = "case ?nla ! ?i of
                  Some c \<Rightarrow> c
                | None \<Rightarrow> allocateLevel (of_nat (Suc d)) (2 ^ unat (bs ! Suc d))"
  have cnt: "entryCount cur = 2 ^ unat (bs ! d)" using Suc.prems(2) by (simp add: wfLevel_sel)
  have len: "length ?nla = unat (entryCount cur)"
    using Suc.prems(2) by (simp add: wfLevel_sel split: option.splits)
  then have inr: "?i < length ?nla" and inr': "?i' < length ?nla" using idx idx' cnt by simp_all
  have ch: "\<forall>c \<in> set ?nla. case c of None \<Rightarrow> True | Some l \<Rightarrow> wfLevel bs (Suc d) l"
    using Suc.prems(2) by (auto simp add: wfLevel_sel split: option.splits)
  have mem: "?nla ! ?i \<in> set ?nla" using inr by (rule nth_mem)
  have wfc: "wfLevel bs (Suc d) ?child"
  proof (cases "?nla ! ?i")
    case None
    then show ?thesis by (simp only: option.case wfLevel_allocate)
  next
    case (Some c)
    from bspec [OF ch mem] Some have "wfLevel bs (Suc d) c" by simp
    then show ?thesis using Some by simp
  qed
  have a: "at ?nla (levelIndex bs d va) = Some (?nla ! ?i)" using inr by (simp add: at_def)
  from Suc.prems(4) obtain child' where c': "insertLoop pt va f (of_nat (Suc d)) ?child = Some child'"
    and cur': "cur' = Level (depth cur) (entryCount cur) (Some (?nla[?i := Some child'])) (mapArray cur)"
    by (cases "?nla ! ?i")
       (auto simp add: insertLoop_inner [OF assms inner] a bind_eq_Some_conv simp del: of_nat_Suc)
  text \<open>What the search for \<open>va'\<close> finds below the old node.\<close>
  have old: "searchLoop pt va' (of_nat d) cur =
      (case ?nla ! ?i' of None \<Rightarrow> Some None | Some c \<Rightarrow> searchLoop pt va' (of_nat (Suc d)) c)"
  proof (cases "nextLevelArray cur")
    case None
    then show ?thesis using inr' by (simp add: searchLoop_inner [OF assms inner])
  next
    case (Some nla0)
    then show ?thesis using inr' by (simp add: searchLoop_inner [OF assms inner] at_def del: of_nat_Suc)
  qed
  have new: "searchLoop pt va' (of_nat d) cur' =
      (case (?nla[?i := Some child']) ! ?i' of
         None \<Rightarrow> Some None | Some c \<Rightarrow> searchLoop pt va' (of_nat (Suc d)) c)"
    using inr' by (simp add: cur' searchLoop_inner [OF assms inner] at_def del: of_nat_Suc)
  show ?case
  proof (cases "?i' = ?i")
    case False
    then show ?thesis using inr' by (simp add: old new)
  next
    case True
    then have same: "levelIndex bs d va' = levelIndex bs d va" by (simp add: word_unat_eq_iff)
    from Suc.prems(3) obtain e where e: "d \<le> e" "e < length bs" "levelIndex bs e va' \<noteq> levelIndex bs e va"
      by blast
    then have "e \<noteq> d" using same by auto
    then have deeper: "\<exists>e. Suc d \<le> e \<and> e < length bs \<and> levelIndex bs e va' \<noteq> levelIndex bs e va"
      using e by (intro exI [of _ e]) simp
    have "k = length bs - Suc (Suc d)" using Suc.hyps(2) by simp
    then have ih: "searchLoop pt va' (of_nat (Suc d)) child' = searchLoop pt va' (of_nat (Suc d)) ?child"
      using inner wfc deeper c' by (intro Suc.hyps(1))
    have "searchLoop pt va' (of_nat (Suc d)) ?child =
      (case ?nla ! ?i of None \<Rightarrow> Some None | Some c \<Rightarrow> searchLoop pt va' (of_nat (Suc d)) c)"
      using searchLoop_fresh [OF assms inner, of va'] by (cases "?nla ! ?i") simp_all
    then show ?thesis using inr True ih by (simp add: old new)
  qed
qed


lemma searchLoop_cong:
  assumes "hasGeometry bs pt" and "hasGeometry bs pt2"
  shows "d < length bs \<Longrightarrow>
         \<forall>e. d \<le> e \<and> e < length bs \<longrightarrow> levelIndex bs e va = levelIndex bs e va' \<Longrightarrow>
         searchLoop pt va (of_nat d) cur = searchLoop pt2 va' (of_nat d) cur"
proof (induction "length bs - Suc d" arbitrary: d cur)
  case 0
  then have last: "Suc d = length bs" by simp
  have "levelIndex bs d va = levelIndex bs d va'" using "0.prems" by simp
  then show ?case
    by (simp only: searchLoop_leaf [OF assms(1) last] searchLoop_leaf [OF assms(2) last])
next
  case (Suc k)
  then have inner: "Suc d < length bs" by simp
  have i: "levelIndex bs d va = levelIndex bs d va'" using Suc.prems by simp
  have "k = length bs - Suc (Suc d)" using Suc.hyps(2) by simp
  then have ih: "searchLoop pt va (of_nat (Suc d)) c = searchLoop pt2 va' (of_nat (Suc d)) c" for c
    using inner Suc.prems(2) by (intro Suc.hyps(1)) simp_all
  show ?case
    by (simp only: searchLoop_inner [OF assms(1) inner] searchLoop_inner [OF assms(2) inner] i ih)
qed

lemma insertLoop_cong:
  assumes "hasGeometry bs pt" and "hasGeometry bs pt2"
  shows "d < length bs \<Longrightarrow>
         \<forall>e. d \<le> e \<and> e < length bs \<longrightarrow> levelIndex bs e va = levelIndex bs e va' \<Longrightarrow>
         insertLoop pt va f (of_nat d) cur = insertLoop pt2 va' f (of_nat d) cur"
proof (induction "length bs - Suc d" arbitrary: d cur)
  case 0
  then have last: "Suc d = length bs" by simp
  have "levelIndex bs d va = levelIndex bs d va'" using "0.prems" by simp
  then show ?case
    by (simp only: insertLoop_leaf [OF assms(1) last] insertLoop_leaf [OF assms(2) last])
next
  case (Suc k)
  then have inner: "Suc d < length bs" by simp
  have i: "levelIndex bs d va = levelIndex bs d va'" using Suc.prems by simp
  have "k = length bs - Suc (Suc d)" using Suc.hyps(2) by simp
  then have ih: "insertLoop pt va f (of_nat (Suc d)) c = insertLoop pt2 va' f (of_nat (Suc d)) c" for c
    using inner Suc.prems(2) by (intro Suc.hyps(1)) simp_all
  show ?case
    by (simp only: insertLoop_inner [OF assms(1) inner] insertLoop_inner [OF assms(2) inner] i ih)
qed

lemma hasGeometry_root:
  "hasGeometry bs pt \<Longrightarrow> hasGeometry bs (pt\<lparr>rootLevel := r\<rparr>)"
proof -
  assume a: "hasGeometry bs pt"
  then have "pt = geometry bs (rootLevel pt)" by (simp add: hasGeometry_def)
  then have "pt\<lparr>rootLevel := r\<rparr> = geometry bs r"
    by (metis (no_types) geometry_def PageTable.update_convs(7) PageTable.surjective PageTable.select_convs)
  then show ?thesis using a by (simp add: hasGeometry_def geometry_def)
qed

lemma bit_levelIndex:
  "bit (levelIndex bs e va) j
     = (j < unat (bs ! e) \<and> bit va (sliceShifts 0 (map unat bs) ! e + j))"
  by (simp add: levelIndex_def bit_take_bit_iff bit_drop_bit_eq)

lemma slice_above_offset:
  assumes "validBits bs" and "e < length bs"
  shows "32 - sum_list (map unat bs) \<le> sliceShifts 0 (map unat bs) ! e"
proof -
  have "sliceShifts 0 (map unat bs) ! e = 32 - sum_list (take (Suc e) (map unat bs))"
    using sliceShifts_nth [of e "map unat bs" 0] assms(2) by simp
  then show ?thesis using sum_take_le [of "Suc e" "map unat bs"] by simp
qed

lemma covering_slice:
  assumes "validBits bs" and "32 - sum_list (map unat bs) \<le> k" and "k < 32"
  shows "\<exists>e < length bs. sliceShifts 0 (map unat bs) ! e \<le> k
            \<and> k < sliceShifts 0 (map unat bs) ! e + unat (bs ! e)"
proof -
  let ?ns = "map unat bs"
  have S: "sum_list ?ns \<le> 32" using assms(1) by (simp add: validBits_def)
  have "length (filter (\<lambda>m. bit m k) (sliceMasks 0 ?ns)) = 1"
    using slices_cover [of 0 ?ns k] S assms(2,3) by simp
  then have "filter (\<lambda>m. bit m k) (sliceMasks 0 ?ns) \<noteq> []" by auto
  then obtain m where "m \<in> set (sliceMasks 0 ?ns)" and m: "bit m k"
    by (metis filter_False)
  then obtain e where e: "e < length bs" and "m = sliceMasks 0 ?ns ! e"
    by (metis in_set_conv_nth length_sliceMasks length_map)
  then have "m = sliceMask (sliceShifts 0 ?ns ! e) (unat (bs ! e))"
    by (simp add: sliceMasks_nth)
  then have "sliceShifts 0 ?ns ! e \<le> k \<and> k < sliceShifts 0 ?ns ! e + unat (bs ! e)"
    using m bit_sliceMask [OF slice_facts(2) [OF assms(1) e], of k] by simp
  then show ?thesis using e by blast
qed

lemma indices_eq_iff_vpn:
  assumes "validBits bs"
  shows "(\<forall>e < length bs. levelIndex bs e va = levelIndex bs e va')
       = (drop_bit (32 - sum_list (map unat bs)) va = drop_bit (32 - sum_list (map unat bs)) va')"
proof
  let ?ob = "32 - sum_list (map unat bs)"
  assume eq: "\<forall>e < length bs. levelIndex bs e va = levelIndex bs e va'"
  show "drop_bit ?ob va = drop_bit ?ob va'"
  proof (rule bit_word_eqI)
    fix j assume "j < LENGTH(32)"
    show "bit (drop_bit ?ob va) j = bit (drop_bit ?ob va') j"
    proof (cases "?ob + j < 32")
      case True
      then obtain e where e: "e < length bs" "sliceShifts 0 (map unat bs) ! e \<le> ?ob + j"
          "?ob + j < sliceShifts 0 (map unat bs) ! e + unat (bs ! e)"
        using covering_slice [OF assms, of "?ob + j"] by auto
      let ?i = "?ob + j - sliceShifts 0 (map unat bs) ! e"
      have "bit (levelIndex bs e va) ?i = bit (levelIndex bs e va') ?i" using eq e(1) by simp
      moreover have "?i < unat (bs ! e)" using e(2,3) by linarith
      ultimately have "bit va (?ob + j) = bit va' (?ob + j)"
        using e(2) by (simp add: bit_levelIndex)
      then show ?thesis by (simp add: bit_drop_bit_eq)
    next
      case False
      then have "\<not> bit va (?ob + j)" "\<not> bit va' (?ob + j)"
        using bit_imp_le_length [of va "?ob + j"] bit_imp_le_length [of va' "?ob + j"] by auto
      then show ?thesis by (simp add: bit_drop_bit_eq)
    qed
  qed
next
  let ?ob = "32 - sum_list (map unat bs)"
  assume eq: "drop_bit ?ob va = drop_bit ?ob va'"
  have bits: "bit va k = bit va' k" if "?ob \<le> k" for k
  proof -
    have "bit (drop_bit ?ob va) (k - ?ob) = bit (drop_bit ?ob va') (k - ?ob)" using eq by simp
    then show ?thesis using that by (simp add: bit_drop_bit_eq)
  qed
  show "\<forall>e < length bs. levelIndex bs e va = levelIndex bs e va'"
  proof (intro allI impI)
    fix e assume e: "e < length bs"
    show "levelIndex bs e va = levelIndex bs e va'"
    proof (rule bit_word_eqI)
      fix j assume "j < LENGTH(32)"
      have "?ob \<le> sliceShifts 0 (map unat bs) ! e + j"
        using slice_above_offset [OF assms e] by simp
      then show "bit (levelIndex bs e va) j = bit (levelIndex bs e va') j"
        by (simp add: bit_levelIndex bits)
    qed
  qed
qed

lemma translate_eq: "translate pt va = searchLoop pt va 0 (rootLevel pt)"
  by (cases "searchLoop pt va 0 (rootLevel pt)") (simp_all add: translate_def searchMappedPfn_def)

lemma offset_width:
  assumes "hasGeometry bs pt"
  shows "unat (offsetBits pt) = 32 - sum_list (map unat bs)" and "offsetBits pt < 32"
    and "0 < sum_list (map unat bs)" and "sum_list (map unat bs) \<le> 32"
proof -
  note f = geometry_fields [OF assms]
  obtain b rest where bs: "bs = b # rest" using f(7) by (cases bs) (auto simp add: validBits_def)
  have "0 < unat b" using f(7) bs by (simp add: validBits_def word_less_nat_alt)
  then show S: "0 < sum_list (map unat bs)" using bs by simp
  show "sum_list (map unat bs) \<le> 32" using f(7) by (simp add: validBits_def)
  show u: "unat (offsetBits pt) = 32 - sum_list (map unat bs)"
    by (simp add: f(5) unat_of_nat)
  show "offsetBits pt < 32" using u S by (simp add: word_less_nat_alt)
qed

lemma getFullVPN_geometry:
  assumes "hasGeometry bs pt"
  shows "getFullVPN pt va = Some (drop_bit (32 - sum_list (map unat bs)) va)"
proof -
  note o = offset_width [OF assms]
  have "offsetBits pt \<noteq> 32" using o(2) by auto
  then show ?thesis using o(1,2) by (simp add: getFullVPN_def shr_Some)
qed

lemma same_page_iff:
  assumes "hasGeometry bs pt"
  shows "(getFullVPN pt va = getFullVPN pt va')
       = (\<forall>e < length bs. levelIndex bs e va = levelIndex bs e va')"
  using indices_eq_iff_vpn [of bs va va'] geometry_fields(7) [OF assms]
  by (simp add: getFullVPN_geometry [OF assms])

lemma wfPageTable_parts:
  assumes "wfPageTable pt"
  shows "hasGeometry (levelBits pt) pt" and "wfLevel (levelBits pt) 0 (rootLevel pt)"
    and "0 < length (levelBits pt)"
proof -
  show g: "hasGeometry (levelBits pt) pt" and "wfLevel (levelBits pt) 0 (rootLevel pt)"
    using assms by (simp_all add: wfPageTable_def)
  show "0 < length (levelBits pt)" using g by (auto simp add: hasGeometry_def validBits_def)
qed

lemma insertMap_effect:
  assumes "wfPageTable pt"
  shows "\<exists>root'. insertMapForVpn2Pfn pt va f = Some (pt\<lparr>rootLevel := root'\<rparr>)
           \<and> insertLoop pt va f 0 (rootLevel pt) = Some root'
           \<and> wfPageTable (pt\<lparr>rootLevel := root'\<rparr>)
           \<and> translate (pt\<lparr>rootLevel := root'\<rparr>) va
               = Some (if 0 \<le> sint f then Some \<lparr>mapFrameNumber = f, valid = True\<rparr> else None)
           \<and> (\<forall>va'. getFullVPN pt va' \<noteq> getFullVPN pt va \<longrightarrow>
                  translate (pt\<lparr>rootLevel := root'\<rparr>) va' = translate pt va')"
proof -
  let ?bs = "levelBits pt"
  note p = wfPageTable_parts [OF assms]
  from insertLoop_wf_lookup [OF p(1) p(3) p(2), of va f]
  obtain root' where r: "insertLoop pt va f 0 (rootLevel pt) = Some root'"
      "wfLevel ?bs 0 root'"
      "searchLoop pt va 0 root'
         = Some (if 0 \<le> sint f then Some \<lparr>mapFrameNumber = f, valid = True\<rparr> else None)"
    by auto
  let ?pt' = "pt\<lparr>rootLevel := root'\<rparr>"
  have g': "hasGeometry ?bs ?pt'" using p(1) by (rule hasGeometry_root)
  have same: "searchLoop ?pt' a 0 c = searchLoop pt a 0 c" for a c
    using searchLoop_cong [OF g' p(1) p(3), of a a c] by simp
  have ins: "insertMapForVpn2Pfn pt va f = Some ?pt'"
    using r(1) by (simp add: insertMapForVpn2Pfn_def)
  have wf: "wfPageTable ?pt'" using g' r(2) by (simp add: wfPageTable_def)
  have look: "translate ?pt' va
               = Some (if 0 \<le> sint f then Some \<lparr>mapFrameNumber = f, valid = True\<rparr> else None)"
    using r(3) by (simp add: translate_eq same)
  have other: "translate ?pt' va' = translate pt va'" if "getFullVPN pt va' \<noteq> getFullVPN pt va" for va'
  proof -
    from that have "\<exists>e. 0 \<le> e \<and> e < length ?bs \<and> levelIndex ?bs e va' \<noteq> levelIndex ?bs e va"
      using same_page_iff [OF p(1), of va' va] by auto
    from insertLoop_other [OF p(1) p(3) p(2) this, of f root'] r(1)
    show ?thesis by (simp add: translate_eq same)
  qed
  show ?thesis using ins r(1) wf look other by blast
qed

lemma translate_same_page:
  assumes "wfPageTable pt" and "getFullVPN pt va' = getFullVPN pt va"
  shows "translate pt va' = translate pt va"
    and "insertMapForVpn2Pfn pt va' f = insertMapForVpn2Pfn pt va f"
proof -
  note p = wfPageTable_parts [OF assms(1)]
  have i: "\<forall>e. 0 \<le> e \<and> e < length (levelBits pt) \<longrightarrow>
              levelIndex (levelBits pt) e va' = levelIndex (levelBits pt) e va"
    using same_page_iff [OF p(1), of va' va] assms(2) by simp
  show "translate pt va' = translate pt va"
    using searchLoop_cong [OF p(1) p(1) p(3) i] by (simp add: translate_eq)
  show "insertMapForVpn2Pfn pt va' f = insertMapForVpn2Pfn pt va f"
    using insertLoop_cong [OF p(1) p(1) p(3) i] by (simp add: insertMapForVpn2Pfn_def)
qed

lemma searchMappedPfn_translate:
  "searchMappedPfn pt va = map_option (\<lambda>m. (m, pt)) (translate pt va)"
  by (cases "searchLoop pt va 0 (rootLevel pt)") (simp_all add: translate_def searchMappedPfn_def)

section \<open>Insertion and translation\<close>

lemma createPageTable_wf:
  assumes "validBits bs" and "hd bs \<noteq> 32"
  shows "createPageTable (of_nat (length bs)) bs = Some (geometry bs (allocateLevel 0 (2 ^ unat (hd bs))))"
    and "wfPageTable (geometry bs (allocateLevel 0 (2 ^ unat (hd bs))))"
proof -
  show "createPageTable (of_nat (length bs)) bs = Some (geometry bs (allocateLevel 0 (2 ^ unat (hd bs))))"
    by (rule createPageTable_valid [OF assms])
  have "bs \<noteq> []" using assms(1) by (simp add: validBits_def)
  then have "bs ! 0 = hd bs" by (cases bs) simp_all
  then have "wfLevel bs 0 (allocateLevel 0 (2 ^ unat (hd bs)))"
    using wfLevel_allocate [of bs 0] by simp
  then show "wfPageTable (geometry bs (allocateLevel 0 (2 ^ unat (hd bs))))"
    using assms by (simp add: wfPageTable_def hasGeometry_def geometry_def)
qed

lemma getFullVPN_root [simp]: "getFullVPN (pt\<lparr>rootLevel := r\<rparr>) va = getFullVPN pt va"
  by (simp add: getFullVPN_def)

lemma insertAll_preserves:
  "wfPageTable pt \<Longrightarrow> \<forall>op \<in> set ops. getFullVPN pt (fst op) \<noteq> getFullVPN pt va \<Longrightarrow>
   \<exists>pt''. insertAll pt ops = Some pt'' \<and> wfPageTable pt'' \<and> translate pt'' va = translate pt va"
proof (induction ops arbitrary: pt)
  case Nil
  then show ?case by simp
next
  case (Cons op ops)
  obtain a g where op: "op = (a, g)" by (cases op)
  from insertMap_effect [OF Cons.prems(1), of a g]
  obtain root' where r: "insertMapForVpn2Pfn pt a g = Some (pt\<lparr>rootLevel := root'\<rparr>)"
      "wfPageTable (pt\<lparr>rootLevel := root'\<rparr>)"
      "\<forall>va'. getFullVPN pt va' \<noteq> getFullVPN pt a \<longrightarrow>
             translate (pt\<lparr>rootLevel := root'\<rparr>) va' = translate pt va'"
    by blast
  have "getFullVPN pt va \<noteq> getFullVPN pt a" using Cons.prems(2) op by auto
  then have t: "translate (pt\<lparr>rootLevel := root'\<rparr>) va = translate pt va" using r(3) by simp
  have "\<forall>op \<in> set ops. getFullVPN (pt\<lparr>rootLevel := root'\<rparr>) (fst op)
           \<noteq> getFullVPN (pt\<lparr>rootLevel := root'\<rparr>) va"
    using Cons.prems(2) by simp
  from Cons.IH [OF r(2) this] t r(1) show ?case by (simp add: op)
qed

text \<open>
  C4. Round trip: on a well-formed page table, inserting a mapping for the address
  \<open>va\<close> with a frame number \<open>f\<close> (non-negative; a negative number is the sentinel that
  invalidates) and then translating \<open>va\<close> returns \<open>f\<close>, whatever insertions and
  invalidations for other pages happen in between.
\<close>

theorem insert_translate_roundtrip:
  assumes "wfPageTable pt" and "0 \<le> sint f"
    and "\<forall>op \<in> set ops. getFullVPN pt (fst op) \<noteq> getFullVPN pt va"
  shows "\<exists>pt' pt''. insertMapForVpn2Pfn pt va f = Some pt' \<and> insertAll pt' ops = Some pt''
           \<and> searchMappedPfn pt'' va = Some (Some \<lparr>mapFrameNumber = f, valid = True\<rparr>, pt'')"
proof -
  from insertMap_effect [OF assms(1), of va f] assms(2)
  obtain root' where r: "insertMapForVpn2Pfn pt va f = Some (pt\<lparr>rootLevel := root'\<rparr>)"
      "wfPageTable (pt\<lparr>rootLevel := root'\<rparr>)"
      "translate (pt\<lparr>rootLevel := root'\<rparr>) va = Some (Some \<lparr>mapFrameNumber = f, valid = True\<rparr>)"
    by auto
  have "\<forall>op \<in> set ops. getFullVPN (pt\<lparr>rootLevel := root'\<rparr>) (fst op)
           \<noteq> getFullVPN (pt\<lparr>rootLevel := root'\<rparr>) va"
    using assms(3) by simp
  from insertAll_preserves [OF r(2) this]
  obtain pt'' where p: "insertAll (pt\<lparr>rootLevel := root'\<rparr>) ops = Some pt''"
      "translate pt'' va = translate (pt\<lparr>rootLevel := root'\<rparr>) va"
    by blast
  have "searchMappedPfn pt'' va = Some (Some \<lparr>mapFrameNumber = f, valid = True\<rparr>, pt'')"
    using p(2) r(3) by (simp add: searchMappedPfn_translate)
  then show ?thesis using r(1) p(1) by blast
qed

theorem insert_translate_roundtrip_witness:
  "wfPageTable (geometry [1, 2] (allocateLevel 0 2))
   \<and> insertMapForVpn2Pfn (geometry [1, 2] (allocateLevel 0 2)) 0x20000000 7
        \<bind> (\<lambda>pt'. insertAll pt' [(0x40000000, 3), (0, - 1)]
        \<bind> (\<lambda>pt''. map_option fst (searchMappedPfn pt'' 0x20000000)))
     = Some (Some \<lparr>mapFrameNumber = 7, valid = True\<rparr>)"
proof -
  let ?pt = "geometry [1, 2] (allocateLevel 0 2)"
  let ?ops = "[(0x40000000, 3), (0, - 1)] :: (u32 \<times> cint) list"
  have v: "validBits [1, 2]" by (simp add: validBits_def)
  have wf: "wfPageTable ?pt" using createPageTable_wf(2) [OF v] by simp
  have f: "0 \<le> sint (7 :: cint)" by simp
  have g: "hasGeometry [1, 2] ?pt" using wf by (simp add: wfPageTable_def geometry_def)
  have o: "\<forall>op \<in> set ?ops. getFullVPN ?pt (fst op) \<noteq> getFullVPN ?pt 0x20000000"
    by (simp add: getFullVPN_geometry [OF g])
  from insert_translate_roundtrip [OF wf f o]
  obtain pt' pt'' where "insertMapForVpn2Pfn ?pt 0x20000000 7 = Some pt'" "insertAll pt' ?ops = Some pt''"
      "searchMappedPfn pt'' 0x20000000 = Some (Some \<lparr>mapFrameNumber = 7, valid = True\<rparr>, pt'')"
    by blast
  then show ?thesis using wf by (simp del: insertAll.simps)
qed

lemma searchLoop_found_valid:
  "searchLoop pt va d cur = Some (Some mp) \<Longrightarrow> valid mp \<and> 0 \<le> sint (mapFrameNumber mp)"
proof (induction pt va d cur rule: searchLoop.induct)
  case (1 pt va d cur)
  from "1.prems" show ?case
    apply (subst (asm) searchLoop.simps)
    apply (auto simp add: bind_eq_Some_conv split: if_splits option.splits dest: "1.IH")
    done
qed

text \<open>
  C9. Translation is free of side effects: whatever \<open>searchMappedPfn\<close> returns, the page
  table after it is the page table before it, the trie with every node and array as it
  was, and a mapping it returns is a valid terminal mapping with a frame number; on a
  well-formed page table it always returns, with the mapping or with not-found.
\<close>

theorem translation_pure:
  "(\<forall>m pt'. searchMappedPfn pt va = Some (m, pt') \<longrightarrow>
       pt' = pt \<and> (\<forall>mp. m = Some mp \<longrightarrow> valid mp \<and> 0 \<le> sint (mapFrameNumber mp)))
   \<and> (wfPageTable pt \<longrightarrow> (\<exists>m. searchMappedPfn pt va = Some (m, pt)))"
proof (intro conjI [of "_ = _"] conjI [of "All _"] allI impI)
  fix m pt' assume "searchMappedPfn pt va = Some (m, pt')"
  then show "pt' = pt" by (auto simp add: searchMappedPfn_def bind_eq_Some_conv)
next
  assume wf: "wfPageTable pt"
  note p = wfPageTable_parts [OF wf]
  from searchLoop_total [OF p(1) p(3) p(2), of va]
  show "\<exists>m. searchMappedPfn pt va = Some (m, pt)" by (auto simp add: searchMappedPfn_def)
next
  fix m pt' mp assume a: "searchMappedPfn pt va = Some (m, pt')" "m = Some mp"
  then have "searchLoop pt va 0 (rootLevel pt) = Some (Some mp)"
    by (auto simp add: searchMappedPfn_def bind_eq_Some_conv)
  then show "valid mp \<and> 0 \<le> sint (mapFrameNumber mp)" by (rule searchLoop_found_valid)
qed

theorem translation_pure_witness:
  "wfPageTable (geometry [1, 2] (allocateLevel 0 2))
   \<and> searchMappedPfn (geometry [1, 2] (allocateLevel 0 2)) 0x20000000
       = Some (None, geometry [1, 2] (allocateLevel 0 2))"
proof -
  let ?pt = "geometry [1, 2] (allocateLevel 0 2)"
  have v: "validBits [1, 2]" by (simp add: validBits_def)
  have wf: "wfPageTable ?pt" using createPageTable_wf(2) [OF v] by simp
  from translation_pure [of ?pt "0x20000000"] wf
  obtain m where m: "searchMappedPfn ?pt 0x20000000 = Some (m, ?pt)" by blast
  have g: "hasGeometry [1, 2] ?pt" using wf by (simp add: wfPageTable_def geometry_def)
  have "translate ?pt 0x20000000 = Some None"
    using searchLoop_fresh [OF g, of 0 "0x20000000" 0 2] by (simp add: translate_eq geometry_def)
  then have "m = None" using m by (simp add: translate_def)
  then show ?thesis using m wf by simp
qed

section \<open>The entry count\<close>

lemma capacityCensus_sel:
  "capacityCensus bs d cur =
     (if Suc d = length bs then (case mapArray cur of None \<Rightarrow> 0 | Some a \<Rightarrow> unat (entryCount cur))
      else (case nextLevelArray cur of
              None \<Rightarrow> 0
            | Some cs \<Rightarrow>
                sum_list (map (\<lambda>c. case c of None \<Rightarrow> 0 | Some l \<Rightarrow> Suc (capacityCensus bs (Suc d) l)) cs)))"
  by (cases cur) (simp split: option.splits)

lemma countSlots_eq:
  "countSlots cs s = s + of_nat (sum_list (map (\<lambda>c. case c of None \<Rightarrow> 0 | Some l \<Rightarrow> Suc 0) cs))"
  by (induction cs arbitrary: s) (auto split: option.splits)

lemma sumCounts_eq:
  "\<forall>c \<in> set cs. f c = Some (of_nat (g c)) \<Longrightarrow>
   sumCounts (map f cs) s = Some (s + of_nat (sum_list (map g cs)))"
  by (induction cs arbitrary: s) (auto simp add: add.assoc)

declare countEntriesRecursiveLocal.simps [simp del]

lemma count_census:
  assumes "hasGeometry bs pt"
  shows "d < length bs \<Longrightarrow> wfLevel bs d lvl \<Longrightarrow>
         countEntriesRecursiveLocal pt (Some lvl) = Some (of_nat (capacityCensus bs d lvl))"
proof (induction "length bs - Suc d" arbitrary: d lvl)
  case 0
  then have last: "Suc d = length bs" by simp
  have dep: "depth lvl = of_nat d" using "0.prems"(2) by (simp add: wfLevel_sel)
  have leaf: "depth lvl = levelCount pt - 1"
    using walk_context(2) [OF assms "0.prems"(1)] last dep by simp
  show ?case
    by (subst countEntriesRecursiveLocal.simps, subst capacityCensus_sel)
       (simp add: leaf last split: option.splits)
next
  case (Suc k)
  then have inner: "Suc d < length bs" and ne: "Suc d \<noteq> length bs" by simp_all
  have dep: "depth lvl = of_nat d" using Suc.prems(2) by (simp add: wfLevel_sel)
  have nleaf: "depth lvl \<noteq> levelCount pt - 1"
    using walk_context(2) [OF assms Suc.prems(1)] ne dep by simp
  show ?case
  proof (cases "nextLevelArray lvl")
    case None
    then show ?thesis
      by (subst countEntriesRecursiveLocal.simps, subst capacityCensus_sel) (simp add: nleaf ne)
  next
    case (Some cs)
    then have len: "length cs = unat (entryCount lvl)"
      and ch: "\<forall>c \<in> set cs. case c of None \<Rightarrow> True | Some l \<Rightarrow> wfLevel bs (Suc d) l"
      using Suc.prems(2) by (simp_all add: wfLevel_sel)
    have k: "k = length bs - Suc (Suc d)" using Suc.hyps(2) by simp
    have each: "\<forall>c \<in> set cs. countEntriesRecursiveLocal pt c
        = Some (of_nat (case c of None \<Rightarrow> 0 | Some l \<Rightarrow> capacityCensus bs (Suc d) l))"
    proof
      fix c assume c: "c \<in> set cs"
      show "countEntriesRecursiveLocal pt c
        = Some (of_nat (case c of None \<Rightarrow> 0 | Some l \<Rightarrow> capacityCensus bs (Suc d) l))"
      proof (cases c)
        case None
        then show ?thesis by (simp add: countEntriesRecursiveLocal.simps)
      next
        case (Some l)
        then have "wfLevel bs (Suc d) l" using ch c by force
        then show ?thesis using Suc.hyps(1) [OF k inner] Some by simp
      qed
    qed
    have split: "sum_list (map (\<lambda>c. case c of None \<Rightarrow> 0 | Some l \<Rightarrow> Suc (capacityCensus bs (Suc d) l)) cs)
        = sum_list (map (\<lambda>c. case c of None \<Rightarrow> 0 | Some l \<Rightarrow> Suc 0) cs)
          + sum_list (map (\<lambda>c. case c of None \<Rightarrow> 0 | Some l \<Rightarrow> capacityCensus bs (Suc d) l) cs)"
      by (induction cs) (auto split: option.splits)
    have cnt: "countEntriesRecursiveLocal pt (Some lvl)
        = sumCounts (map (countEntriesRecursiveLocal pt) cs) (countSlots cs 0)"
      by (subst countEntriesRecursiveLocal.simps) (simp add: nleaf Some len)
    have cen: "capacityCensus bs d lvl
        = sum_list (map (\<lambda>c. case c of None \<Rightarrow> 0 | Some l \<Rightarrow> Suc (capacityCensus bs (Suc d) l)) cs)"
      by (subst capacityCensus_sel) (simp add: ne Some)
    show ?thesis
      unfolding cnt cen split by (simp add: sumCounts_eq [OF each] countSlots_eq)
  qed
qed


lemma sum_list_single_slot:
  assumes "i < m" and "g x = 0"
  shows "sum_list (map g ((replicate m x)[i := y])) = (g y :: nat)"
proof -
  have "sum_list (map g ((replicate m x)[i := y])) = sum_list ((map g (replicate m x))[i := g y])"
    by (simp add: map_update)
  also have "\<dots> = sum_list (map g (replicate m x)) + g y - map g (replicate m x) ! i"
    using assms(1) by (subst sum_list_update) simp_all
  also have "\<dots> = g y" using assms by (simp add: sum_list_replicate)
  finally show ?thesis .
qed

lemma census_insert_fresh:
  assumes "hasGeometry bs pt"
  shows "d < length bs \<Longrightarrow>
         insertLoop pt va f (of_nat d) (allocateLevel (of_nat d) (2 ^ unat (bs ! d))) = Some cur' \<Longrightarrow>
         capacityCensus bs d cur' = (length bs - Suc d) + 2 ^ unat (last bs)"
proof (induction "length bs - Suc d" arbitrary: d cur')
  case 0
  then have last: "Suc d = length bs" by simp
  note idx = index_in_range [OF assms "0.prems"(1), of va]
  have l: "last bs = bs ! d" using last by (metis diff_Suc_1 last_conv_nth length_0_conv nat.distinct(1))
  have u: "unat ((2 :: u32) ^ unat (bs ! d)) = 2 ^ unat (bs ! d)"
    using level_narrow(2) [OF assms "0.prems"(1)] by (rule unat_2p)
  from "0.prems"(2) idx have "mapArray cur' \<noteq> None \<and> entryCount cur' = 2 ^ unat (bs ! d)"
    by (auto simp add: insertLoop_leaf [OF assms last] allocateLevel_def split: if_splits)
  then show ?case using last l u by (subst capacityCensus_sel) (auto split: option.splits)
next
  case (Suc k)
  then have inner: "Suc d < length bs" and ne: "Suc d \<noteq> length bs" by simp_all
  note idx = index_in_range [OF assms Suc.prems(1), of va]
  let ?m = "unat ((2 :: u32) ^ unat (bs ! d))"
  let ?i = "unat (levelIndex bs d va)"
  let ?fresh = "allocateLevel (of_nat (Suc d)) (2 ^ unat (bs ! Suc d))"
  have a: "at (replicate ?m None) (levelIndex bs d va) = Some None" using idx by (simp add: at_def)
  from Suc.prems(2) obtain child' where c': "insertLoop pt va f (of_nat (Suc d)) ?fresh = Some child'"
    and cur': "cur' = Level (of_nat d) (2 ^ unat (bs ! d)) (Some ((replicate ?m None)[?i := Some child'])) None"
    by (auto simp add: insertLoop_inner [OF assms inner] allocateLevel_def a bind_eq_Some_conv
          simp del: of_nat_Suc)
  have k: "k = length bs - Suc (Suc d)" using Suc.hyps(2) by simp
  have ih: "capacityCensus bs (Suc d) child' = (length bs - Suc (Suc d)) + 2 ^ unat (last bs)"
    using Suc.hyps(1) [OF k inner c'] .
  have "capacityCensus bs d cur'
      = sum_list (map (\<lambda>c. case c of None \<Rightarrow> 0 | Some l \<Rightarrow> Suc (capacityCensus bs (Suc d) l))
                   ((replicate ?m None)[?i := Some child']))"
    by (simp add: cur' ne)
  also have "\<dots> = Suc (capacityCensus bs (Suc d) child')"
    using idx by (subst sum_list_single_slot) simp_all
  finally show ?case using ih inner by simp
qed

lemma census_second_insert:
  assumes "hasGeometry bs pt"
  shows "d < length bs \<Longrightarrow> wfLevel bs d cur \<Longrightarrow>
         \<forall>e. d \<le> e \<and> Suc e < length bs \<longrightarrow> levelIndex bs e va1 = levelIndex bs e va2 \<Longrightarrow>
         insertLoop pt va1 f1 (of_nat d) cur = Some cur1 \<Longrightarrow>
         insertLoop pt va2 f2 (of_nat d) cur1 = Some cur2 \<Longrightarrow>
         capacityCensus bs d cur2 = capacityCensus bs d cur1"
proof (induction "length bs - Suc d" arbitrary: d cur cur1 cur2)
  case 0
  then have last: "Suc d = length bs" by simp
  from "0.prems"(4) have m1: "mapArray cur1 \<noteq> None"
    by (auto simp add: insertLoop_leaf [OF assms last] split: if_splits)
  from "0.prems"(5) have "mapArray cur2 \<noteq> None \<and> entryCount cur2 = entryCount cur1"
    by (auto simp add: insertLoop_leaf [OF assms last] split: if_splits)
  then show ?case using m1 last
    by (subst capacityCensus_sel, subst (2) capacityCensus_sel) (auto split: option.splits)
next
  case (Suc k)
  then have inner: "Suc d < length bs" and ne: "Suc d \<noteq> length bs" by simp_all
  note idx = index_in_range [OF assms Suc.prems(1), of va1]
  have same: "levelIndex bs d va2 = levelIndex bs d va1" using Suc.prems(3) inner by simp
  let ?nla = "case nextLevelArray cur of
                None \<Rightarrow> replicate (unat (entryCount cur)) None
              | Some a \<Rightarrow> a"
  let ?i = "unat (levelIndex bs d va1)"
  let ?child = "case ?nla ! ?i of
                  Some c \<Rightarrow> c
                | None \<Rightarrow> allocateLevel (of_nat (Suc d)) (2 ^ unat (bs ! Suc d))"
  let ?g = "\<lambda>c. case c of None \<Rightarrow> 0 | Some l \<Rightarrow> Suc (capacityCensus bs (Suc d) l)"
  have cnt: "entryCount cur = 2 ^ unat (bs ! d)" using Suc.prems(2) by (simp add: wfLevel_sel)
  have len: "length ?nla = unat (entryCount cur)"
    using Suc.prems(2) by (simp add: wfLevel_sel split: option.splits)
  then have inr: "?i < length ?nla" using idx cnt by simp
  have ch: "\<forall>c \<in> set ?nla. case c of None \<Rightarrow> True | Some l \<Rightarrow> wfLevel bs (Suc d) l"
    using Suc.prems(2) by (auto simp add: wfLevel_sel split: option.splits)
  have mem: "?nla ! ?i \<in> set ?nla" using inr by (rule nth_mem)
  have wfc: "wfLevel bs (Suc d) ?child"
  proof (cases "?nla ! ?i")
    case None
    then show ?thesis by (simp only: option.case wfLevel_allocate)
  next
    case (Some c)
    from bspec [OF ch mem] Some have "wfLevel bs (Suc d) c" by simp
    then show ?thesis using Some by simp
  qed
  have a: "at ?nla (levelIndex bs d va1) = Some (?nla ! ?i)" using inr by (simp add: at_def)
  from Suc.prems(4) obtain child1 where c1: "insertLoop pt va1 f1 (of_nat (Suc d)) ?child = Some child1"
    and cur1: "cur1 = Level (depth cur) (entryCount cur) (Some (?nla[?i := Some child1])) (mapArray cur)"
    by (cases "?nla ! ?i")
       (auto simp add: insertLoop_inner [OF assms inner] a bind_eq_Some_conv simp del: of_nat_Suc)
  let ?nla1 = "?nla[?i := Some child1]"
  have a1: "at ?nla1 (levelIndex bs d va1) = Some (Some child1)" using inr by (simp add: at_def)
  from Suc.prems(5) obtain child2 where c2: "insertLoop pt va2 f2 (of_nat (Suc d)) child1 = Some child2"
    and cur2: "cur2 = Level (depth cur) (entryCount cur) (Some (?nla1[?i := Some child2])) (mapArray cur)"
    by (auto simp add: cur1 insertLoop_inner [OF assms inner] same a1 bind_eq_Some_conv
          simp del: of_nat_Suc)
  have k: "k = length bs - Suc (Suc d)" using Suc.hyps(2) by simp
  have deeper: "\<forall>e. Suc d \<le> e \<and> Suc e < length bs \<longrightarrow> levelIndex bs e va1 = levelIndex bs e va2"
    using Suc.prems(3) by simp
  have ih: "capacityCensus bs (Suc d) child2 = capacityCensus bs (Suc d) child1"
    using Suc.hyps(1) [OF k inner wfc deeper c1 c2] .
  have "map ?g (?nla1[?i := Some child2]) = (map ?g ?nla1)[?i := ?g (Some child2)]"
    by (simp add: map_update)
  also have "?g (Some child2) = map ?g ?nla1 ! ?i" using inr ih by simp
  also have "(map ?g ?nla1)[?i := map ?g ?nla1 ! ?i] = map ?g ?nla1" by (rule list_update_id)
  finally have "map ?g (?nla1[?i := Some child2]) = map ?g ?nla1" .
  then show ?case by (simp add: cur1 cur2 ne)
qed


lemma insertMap_root:
  "insertMapForVpn2Pfn pt va f = Some pt' \<Longrightarrow>
   \<exists>r. insertLoop pt va f 0 (rootLevel pt) = Some r \<and> pt' = pt\<lparr>rootLevel := r\<rparr>"
  by (auto simp add: insertMapForVpn2Pfn_def bind_eq_Some_conv)

lemma two_inserts_count:
  assumes "validBits bs" and "hd bs \<noteq> 32"
    and "\<forall>e. Suc e < length bs \<longrightarrow> levelIndex bs e va1 = levelIndex bs e va2"
  shows "\<exists>pt0 pt1 pt2. createPageTable (of_nat (length bs)) bs = Some pt0
           \<and> insertMapForVpn2Pfn pt0 va1 f1 = Some pt1 \<and> insertMapForVpn2Pfn pt1 va2 f2 = Some pt2
           \<and> countEntriesRecursiveLocal pt2 (Some (rootLevel pt2))
               = Some (of_nat (length bs - 1 + 2 ^ unat (last bs)))"
proof -
  let ?fresh = "allocateLevel 0 (2 ^ unat (hd bs))"
  let ?pt0 = "geometry bs ?fresh"
  note c = createPageTable_wf [OF assms(1,2)]
  have lb: "levelBits ?pt0 = bs" and root0: "rootLevel ?pt0 = ?fresh" by (simp_all add: geometry_def)
  note p0 = wfPageTable_parts [OF c(2), unfolded lb root0]
  have hd: "bs ! 0 = hd bs" using p0(3) by (cases bs) simp_all
  from insertMap_effect [OF c(2), of va1 f1] obtain r1 where
    i1: "insertMapForVpn2Pfn ?pt0 va1 f1 = Some (?pt0\<lparr>rootLevel := r1\<rparr>)"
    and l1: "insertLoop ?pt0 va1 f1 0 ?fresh = Some r1"
    and wf1: "wfPageTable (?pt0\<lparr>rootLevel := r1\<rparr>)" by (auto simp add: lb root0)
  let ?pt1 = "?pt0\<lparr>rootLevel := r1\<rparr>"
  from insertMap_effect [OF wf1, of va2 f2] obtain r2 where
    i2: "insertMapForVpn2Pfn ?pt1 va2 f2 = Some (?pt1\<lparr>rootLevel := r2\<rparr>)"
    and l2': "insertLoop ?pt1 va2 f2 0 r1 = Some r2"
    and wf2: "wfPageTable (?pt1\<lparr>rootLevel := r2\<rparr>)" by auto
  let ?pt2 = "?pt1\<lparr>rootLevel := r2\<rparr>"
  have g1: "hasGeometry bs ?pt1" using p0(1) by (rule hasGeometry_root)
  have g2: "hasGeometry bs ?pt2" using g1 by (rule hasGeometry_root)
  have l2: "insertLoop ?pt0 va2 f2 0 r1 = Some r2"
    using l2' insertLoop_cong [OF g1 p0(1) p0(3), of va2 va2 f2 r1] by simp
  have wfr2: "wfLevel bs 0 r2" using wfPageTable_parts(2) [OF wf2] by (simp add: lb)
  have fresh: "?fresh = allocateLevel (of_nat 0) (2 ^ unat (bs ! 0))" by (simp add: hd)
  have c1: "capacityCensus bs 0 r1 = (length bs - Suc 0) + 2 ^ unat (last bs)"
    using census_insert_fresh [OF p0(1) p0(3), of va1 f1 r1] l1 fresh by simp
  have sh: "\<forall>e. 0 \<le> e \<and> Suc e < length bs \<longrightarrow> levelIndex bs e va1 = levelIndex bs e va2"
    using assms(3) by simp
  have c2: "capacityCensus bs 0 r2 = capacityCensus bs 0 r1"
    using census_second_insert [OF p0(1) p0(3) p0(2) sh, of f1 r1 f2 r2] l1 l2 by simp
  have "countEntriesRecursiveLocal ?pt2 (Some r2) = Some (of_nat (capacityCensus bs 0 r2))"
    using count_census [OF g2 p0(3) wfr2] .
  then have "countEntriesRecursiveLocal ?pt2 (Some (rootLevel ?pt2))
               = Some (of_nat (length bs - 1 + 2 ^ unat (last bs)))"
    using c1 c2 by simp
  then show ?thesis using c(1) i1 i2 by blast
qed

text \<open>
  C1 (as amended). The entry count of the end-of-run summary is, for the trie as it
  stands, one unit per non-empty child slot at every interior level plus the full
  capacity of every allocated terminal mapping array. After the insertion of two
  mappings whose addresses share every level index but the last into a new table, it is
  the number of interior levels, one unit per node of the shared path, plus the capacity
  \<open>2 ^ last bs\<close> of the one terminal array.
\<close>

theorem summary_entry_count:
  "(wfPageTable pt \<longrightarrow>
      countEntriesRecursiveLocal pt (Some (rootLevel pt))
        = Some (of_nat (capacityCensus (levelBits pt) 0 (rootLevel pt))))
   \<and> (validBits bs \<and> hd bs \<noteq> 32
        \<and> (\<forall>e. Suc e < length bs \<longrightarrow> levelIndex bs e va1 = levelIndex bs e va2) \<longrightarrow>
      (\<exists>pt0 pt1 pt2. createPageTable (of_nat (length bs)) bs = Some pt0
           \<and> insertMapForVpn2Pfn pt0 va1 f1 = Some pt1 \<and> insertMapForVpn2Pfn pt1 va2 f2 = Some pt2
           \<and> countEntriesRecursiveLocal pt2 (Some (rootLevel pt2))
               = Some (of_nat (length bs - 1 + 2 ^ unat (last bs)))))"
proof (intro conjI impI)
  assume wf: "wfPageTable pt"
  note p = wfPageTable_parts [OF wf]
  show "countEntriesRecursiveLocal pt (Some (rootLevel pt))
        = Some (of_nat (capacityCensus (levelBits pt) 0 (rootLevel pt)))"
    using count_census [OF p(1) p(3) p(2)] .
next
  assume "validBits bs \<and> hd bs \<noteq> 32
        \<and> (\<forall>e. Suc e < length bs \<longrightarrow> levelIndex bs e va1 = levelIndex bs e va2)"
  then show "\<exists>pt0 pt1 pt2. createPageTable (of_nat (length bs)) bs = Some pt0
           \<and> insertMapForVpn2Pfn pt0 va1 f1 = Some pt1 \<and> insertMapForVpn2Pfn pt1 va2 f2 = Some pt2
           \<and> countEntriesRecursiveLocal pt2 (Some (rootLevel pt2))
               = Some (of_nat (length bs - 1 + 2 ^ unat (last bs)))"
    using two_inserts_count [of bs va1 va2 f1 f2] by blast
qed

theorem summary_entry_count_witness:
  "validBits [1, 2] \<and> hd [1, 2 :: u32] \<noteq> 32
   \<and> createPageTable 2 [1, 2] \<bind> (\<lambda>pt. insertMapForVpn2Pfn pt 0 0
        \<bind> (\<lambda>pt1. insertMapForVpn2Pfn pt1 0x20000000 1
        \<bind> (\<lambda>pt2. countEntriesRecursiveLocal pt2 (Some (rootLevel pt2)))))
     = Some 5"
proof -
  have v: "validBits [1, 2]" by (simp add: validBits_def)
  have h: "hd [1, 2 :: u32] \<noteq> 32" by simp
  have "levelIndex [1, 2] 0 0 = levelIndex [1, 2] 0 0x20000000" by code_simp
  then have s: "\<forall>e. Suc e < length [1, 2 :: u32] \<longrightarrow> levelIndex [1, 2] e 0 = levelIndex [1, 2] e 0x20000000"
    by simp
  from summary_entry_count [of _ "[1, 2]" 0 "0x20000000" 0 1] v h s
  obtain pt0 pt1 pt2 where "createPageTable (of_nat (length [1, 2 :: u32])) [1, 2] = Some pt0"
      "insertMapForVpn2Pfn pt0 0 0 = Some pt1" "insertMapForVpn2Pfn pt1 0x20000000 1 = Some pt2"
      "countEntriesRecursiveLocal pt2 (Some (rootLevel pt2))
               = Some (of_nat (length [1, 2 :: u32] - 1 + 2 ^ unat (last [1, 2 :: u32])))"
    by blast
  then show ?thesis using v by simp
qed


text \<open>
  The claim as stated fails: with the level bit-widths 1 and 2 and mappings for the
  addresses \<open>0\<close> and \<open>0x20000000\<close>, which share the first index, the summary's count is
  5, the shared slot and the four slots of the terminal array, while one unit per
  non-empty child slot plus one per valid terminal mapping, which
  \<open>countEntriesRecursive\<close> of \<open>pagetable.cpp\<close> counts, is 3.
\<close>

theorem summary_entry_count_example:
  "createPageTable 2 [1, 2] \<bind> (\<lambda>pt. insertMapForVpn2Pfn pt 0 0
     \<bind> (\<lambda>pt1. insertMapForVpn2Pfn pt1 0x20000000 1
     \<bind> (\<lambda>pt2. Some (countEntriesRecursiveLocal pt2 (Some (rootLevel pt2)),
                       countEntriesRecursive pt2 (Some (rootLevel pt2))))))
   = Some (Some 5, Some 3)"
  by code_simp


section \<open>The fault handler\<close>

lemma findLoadedLoop_spec:
  "(findLoadedLoop es i vpn = - 1 \<and> vpn \<notin> fullVPN ` set es)
   \<or> (\<exists>k < length es. findLoadedLoop es i vpn = int_of_size (i + k)
          \<and> fullVPN (es ! k) = vpn \<and> (\<forall>j < k. fullVPN (es ! j) \<noteq> vpn))"
proof (induction es arbitrary: i)
  case Nil
  then show ?case by simp
next
  case (Cons e es)
  show ?case
  proof (cases "fullVPN e = vpn")
    case True
    then show ?thesis by (intro disjI2 exI [of _ 0]) simp
  next
    case False
    from Cons.IH [of "Suc i"] show ?thesis
    proof (elim disjE conjE exE)
      assume "findLoadedLoop es (Suc i) vpn = - 1" "vpn \<notin> fullVPN ` set es"
      then show ?thesis using False by auto
    next
      fix k assume k: "k < length es" "findLoadedLoop es (Suc i) vpn = int_of_size (Suc i + k)"
        "fullVPN (es ! k) = vpn" "\<forall>j < k. fullVPN (es ! j) \<noteq> vpn"
      have "\<forall>j < Suc k. fullVPN ((e # es) ! j) \<noteq> vpn"
        using k(4) False by (simp add: All_less_Suc2)
      then show ?thesis using k(1,2,3) False by (intro disjI2 exI [of _ "Suc k"]) simp
    qed
  qed
qed

lemma findLoadedVPN_spec:
  assumes "length (loaded rs) \<le> 2 ^ 31"
  shows "(findLoadedVPN rs vpn = - 1 \<and> vpn \<notin> fullVPN ` set (loaded rs))
   \<or> (\<exists>k < length (loaded rs). findLoadedVPN rs vpn = int k
          \<and> fullVPN (loaded rs ! k) = vpn \<and> (\<forall>j < k. fullVPN (loaded rs ! j) \<noteq> vpn))"
proof -
  from findLoadedLoop_spec [of "loaded rs" 0 vpn] show ?thesis
  proof (elim disjE conjE exE)
    assume "findLoadedLoop (loaded rs) 0 vpn = - 1" "vpn \<notin> fullVPN ` set (loaded rs)"
    then show ?thesis by (simp add: findLoadedVPN_def)
  next
    fix k assume k: "k < length (loaded rs)" "findLoadedLoop (loaded rs) 0 vpn = int_of_size (0 + k)"
      "fullVPN (loaded rs ! k) = vpn" "\<forall>j < k. fullVPN (loaded rs ! j) \<noteq> vpn"
    have "int_of_size k = int k" using k(1) assms by (intro int_of_size_small) simp
    then show ?thesis using k by (intro disjI2 exI [of _ k]) (simp add: findLoadedVPN_def)
  qed
qed

text \<open>The three outcomes of \<open>ensureResidentPage\<close>.\<close>

lemma ensureResidentPage_resident:
  assumes "findLoadedVPN rs vpn = int k" and "k < length (loaded rs)"
  shows "ensureResidentPage pt rs va vpn
       = Some (pt, rs, \<lparr>pfn = frameNumber (loaded rs ! k), didFault = False, didEvict = False,
                          evictedVPN = 0, evictedAgeBits = 0\<rparr>)"
  using assms by (simp add: ensureResidentPage_def atInt_def)

lemma ensureResidentPage_allocate:
  assumes "findLoadedVPN rs vpn < 0" and "length (loaded rs) < unat (maxFrames rs)"
  shows "ensureResidentPage pt rs va vpn
       = insertMapForVpn2Pfn pt va (nextFreeFrame rs) \<bind>
           (\<lambda>pt1. Some (pt1,
                     rs\<lparr>nextFreeFrame := nextFreeFrame rs + 1,
                        loaded := loaded rs @ [\<lparr>fullVPN = vpn, frameNumber = nextFreeFrame rs,
                                                ageBits = 0x8000, lastAccessTime = currentTime rs,
                                                accessedThisInterval = True\<rparr>]\<rparr>,
                     \<lparr>pfn = nextFreeFrame rs, didFault = True, didEvict = False,
                      evictedVPN = 0, evictedAgeBits = 0\<rparr>))"
  using assms by (simp add: ensureResidentPage_def Let_def)

lemma victim_overwritten:
  "(e :: LoadedPageInfo)\<lparr>fullVPN := a, ageBits := b, lastAccessTime := c, accessedThisInterval := d\<rparr>
     = \<lparr>fullVPN = a, frameNumber = frameNumber e, ageBits = b, lastAccessTime = c,
        accessedThisInterval = d\<rparr>"
  by (cases e) simp

lemma ensureResidentPage_evict:
  assumes "findLoadedVPN rs vpn < 0" and "\<not> length (loaded rs) < unat (maxFrames rs)"
    and "chooseVictimIndex rs = int v" and "v < length (loaded rs)"
  shows "ensureResidentPage pt rs va vpn
       = shl (fullVPN (loaded rs ! v)) (offsetBits pt) \<bind>
           (\<lambda>victimVA. insertMapForVpn2Pfn pt victimVA (- 1) \<bind>
           (\<lambda>pt1. insertMapForVpn2Pfn pt1 va (frameNumber (loaded rs ! v)) \<bind>
           (\<lambda>pt2. Some (pt2,
                     rs\<lparr>loaded := (loaded rs)[v := \<lparr>fullVPN = vpn,
                                                      frameNumber = frameNumber (loaded rs ! v),
                                                      ageBits = 0x8000, lastAccessTime = currentTime rs,
                                                      accessedThisInterval = True\<rparr>]\<rparr>,
                     \<lparr>pfn = frameNumber (loaded rs ! v), didFault = True, didEvict = True,
                      evictedVPN = fullVPN (loaded rs ! v),
                      evictedAgeBits = ageBits (loaded rs ! v)\<rparr>))))"
  using assms by (simp add: ensureResidentPage_def Let_def atInt_def victim_overwritten)

lemma ensureResidentPage_no_victim:
  assumes "findLoadedVPN rs vpn < 0" and "\<not> length (loaded rs) < unat (maxFrames rs)"
    and "chooseVictimIndex rs = - 1"
  shows "ensureResidentPage pt rs va vpn = None"
  using assms by (simp add: ensureResidentPage_def Let_def atInt_def)


lemma drop_push_drop: "drop_bit n (push_bit n (drop_bit n (a :: u32))) = drop_bit n a"
  by (rule bit_word_eqI) (auto simp add: bit_drop_bit_eq bit_push_bit_iff dest: bit_imp_le_length)

lemma victim_address:
  assumes "hasGeometry bs pt" and "getFullVPN pt a = Some w"
  shows "\<exists>victimVA. shl w (offsetBits pt) = Some victimVA \<and> getFullVPN pt victimVA = Some w"
proof -
  note o = offset_width [OF assms(1)]
  let ?ob = "32 - sum_list (map unat bs)"
  have w: "w = drop_bit ?ob a" using assms(2) by (simp add: getFullVPN_geometry [OF assms(1)])
  have "shl w (offsetBits pt) = Some (push_bit ?ob w)" using o(1,2) by (simp add: shl_Some)
  moreover have "getFullVPN pt (push_bit ?ob w) = Some w"
    by (simp add: getFullVPN_geometry [OF assms(1)] w drop_push_drop)
  ultimately show ?thesis by blast
qed

text \<open>
  C8. On a miss with the frame budget exhausted, when the scan has chosen the record at
  index \<open>v\<close> as the victim, the fault handler rebuilds the victim's address as its VPN
  shifted left by the offset width, an address of the victim's page; invalidates the
  mapping there; installs the mapping of the new page with the victim's frame number;
  overwrites the record at index \<open>v\<close>, in its place, with the new VPN, the same frame
  number, the age bitstring \<open>0x8000\<close>, the current time and the accessed flag; and
  reports the evicted VPN and the victim's age bitstring as it was. Afterwards the
  victim's address translates to not-found and the new address to the reused frame.
\<close>

theorem eviction_path:
  assumes "wfPageTable pt"
    and "findLoadedVPN rs vpn < 0"
    and "\<not> length (loaded rs) < unat (maxFrames rs)"
    and "chooseVictimIndex rs = int v" and "v < length (loaded rs)"
    and "getFullVPN pt va = Some vpn"
    and "\<exists>a. getFullVPN pt a = Some (fullVPN (loaded rs ! v))"
    and "fullVPN (loaded rs ! v) \<noteq> vpn"
    and "0 \<le> sint (frameNumber (loaded rs ! v))"
  shows "\<exists>victimVA pt1 pt2.
           shl (fullVPN (loaded rs ! v)) (offsetBits pt) = Some victimVA
         \<and> getFullVPN pt victimVA = Some (fullVPN (loaded rs ! v))
         \<and> insertMapForVpn2Pfn pt victimVA (- 1) = Some pt1
         \<and> insertMapForVpn2Pfn pt1 va (frameNumber (loaded rs ! v)) = Some pt2
         \<and> ensureResidentPage pt rs va vpn
             = Some (pt2,
                     rs\<lparr>loaded := (loaded rs)[v := \<lparr>fullVPN = vpn,
                                                      frameNumber = frameNumber (loaded rs ! v),
                                                      ageBits = 0x8000, lastAccessTime = currentTime rs,
                                                      accessedThisInterval = True\<rparr>]\<rparr>,
                     \<lparr>pfn = frameNumber (loaded rs ! v), didFault = True, didEvict = True,
                      evictedVPN = fullVPN (loaded rs ! v),
                      evictedAgeBits = ageBits (loaded rs ! v)\<rparr>)
         \<and> wfPageTable pt2
         \<and> translate pt2 victimVA = Some None
         \<and> translate pt2 va = Some (Some \<lparr>mapFrameNumber = frameNumber (loaded rs ! v), valid = True\<rparr>)"
proof -
  let ?victim = "loaded rs ! v"
  note p = wfPageTable_parts [OF assms(1)]
  from assms(7) obtain a where a: "getFullVPN pt a = Some (fullVPN ?victim)" by blast
  from victim_address [OF p(1) a] obtain victimVA where
    va1: "shl (fullVPN ?victim) (offsetBits pt) = Some victimVA"
    and va2: "getFullVPN pt victimVA = Some (fullVPN ?victim)" by blast
  from insertMap_effect [OF assms(1), of victimVA "- 1"] obtain r1 where
    i1: "insertMapForVpn2Pfn pt victimVA (- 1) = Some (pt\<lparr>rootLevel := r1\<rparr>)"
    and wf1: "wfPageTable (pt\<lparr>rootLevel := r1\<rparr>)"
    and t1: "translate (pt\<lparr>rootLevel := r1\<rparr>) victimVA = Some None" by auto
  let ?pt1 = "pt\<lparr>rootLevel := r1\<rparr>"
  from insertMap_effect [OF wf1, of va "frameNumber ?victim"] assms(9) obtain r2 where
    i2: "insertMapForVpn2Pfn ?pt1 va (frameNumber ?victim) = Some (?pt1\<lparr>rootLevel := r2\<rparr>)"
    and wf2: "wfPageTable (?pt1\<lparr>rootLevel := r2\<rparr>)"
    and t2: "translate (?pt1\<lparr>rootLevel := r2\<rparr>) va
               = Some (Some \<lparr>mapFrameNumber = frameNumber ?victim, valid = True\<rparr>)"
    and o2: "\<forall>va'. getFullVPN ?pt1 va' \<noteq> getFullVPN ?pt1 va \<longrightarrow>
               translate (?pt1\<lparr>rootLevel := r2\<rparr>) va' = translate ?pt1 va'"
    by auto
  let ?pt2 = "?pt1\<lparr>rootLevel := r2\<rparr>"
  have "getFullVPN ?pt1 victimVA \<noteq> getFullVPN ?pt1 va"
    using va2 assms(6,8) by simp
  then have t3: "translate ?pt2 victimVA = Some None" using o2 t1 by simp
  have e: "ensureResidentPage pt rs va vpn
             = Some (?pt2,
                     rs\<lparr>loaded := (loaded rs)[v := \<lparr>fullVPN = vpn,
                                                      frameNumber = frameNumber ?victim,
                                                      ageBits = 0x8000, lastAccessTime = currentTime rs,
                                                      accessedThisInterval = True\<rparr>]\<rparr>,
                     \<lparr>pfn = frameNumber ?victim, didFault = True, didEvict = True,
                      evictedVPN = fullVPN ?victim, evictedAgeBits = ageBits ?victim\<rparr>)"
    by (simp add: ensureResidentPage_evict [OF assms(2,3,4,5)] va1 i1 i2)
  show ?thesis
    by (intro exI [of _ victimVA] exI [of _ ?pt1] exI [of _ ?pt2] conjI va1 va2 i1 i2 e wf2 t3 t2)
qed

theorem eviction_path_witness:
  "wfPageTable (geometry [1, 2]
      (Level 0 2 (Some [Some (Level 1 4 None
                          (Some [\<lparr>mapFrameNumber = 0, valid = True\<rparr>,
                                 \<lparr>mapFrameNumber = - 1, valid = False\<rparr>,
                                 \<lparr>mapFrameNumber = - 1, valid = False\<rparr>,
                                 \<lparr>mapFrameNumber = - 1, valid = False\<rparr>])), None]) None))
   \<and> map_option snd (ensureResidentPage
        (geometry [1, 2]
          (Level 0 2 (Some [Some (Level 1 4 None
                          (Some [\<lparr>mapFrameNumber = 0, valid = True\<rparr>,
                                 \<lparr>mapFrameNumber = - 1, valid = False\<rparr>,
                                 \<lparr>mapFrameNumber = - 1, valid = False\<rparr>,
                                 \<lparr>mapFrameNumber = - 1, valid = False\<rparr>])), None]) None))
        \<lparr>maxFrames = 1, bitstringInterval = 10, accessesSinceAging = 2, currentTime = 2,
         nextFreeFrame = 1,
         loaded = [\<lparr>fullVPN = 0, frameNumber = 0, ageBits = 0x8000, lastAccessTime = 1,
                    accessedThisInterval = True\<rparr>]\<rparr>
        0x20000000 1)
     = Some (\<lparr>maxFrames = 1, bitstringInterval = 10, accessesSinceAging = 2, currentTime = 2,
              nextFreeFrame = 1,
              loaded = [\<lparr>fullVPN = 1, frameNumber = 0, ageBits = 0x8000, lastAccessTime = 2,
                         accessedThisInterval = True\<rparr>]\<rparr>,
             \<lparr>pfn = 0, didFault = True, didEvict = True, evictedVPN = 0, evictedAgeBits = 0x8000\<rparr>)"
proof -
  let ?root = "Level 0 2 (Some [Some (Level 1 4 None
                          (Some [\<lparr>mapFrameNumber = 0, valid = True\<rparr>,
                                 \<lparr>mapFrameNumber = - 1, valid = False\<rparr>,
                                 \<lparr>mapFrameNumber = - 1, valid = False\<rparr>,
                                 \<lparr>mapFrameNumber = - 1, valid = False\<rparr>])), None]) None"
  let ?pt = "geometry [1, 2] ?root"
  let ?rs = "\<lparr>maxFrames = 1, bitstringInterval = 10, accessesSinceAging = 2, currentTime = 2,
         nextFreeFrame = 1,
         loaded = [\<lparr>fullVPN = 0, frameNumber = 0, ageBits = 0x8000 :: u16, lastAccessTime = 1,
                    accessedThisInterval = True\<rparr>]\<rparr> :: ReplacementState"
  have g: "hasGeometry [1, 2] ?pt" by (simp add: hasGeometry_def validBits_def geometry_def)
  have wf: "wfPageTable ?pt"
    unfolding wfPageTable_def using g by (simp add: geometry_def)
  have h2: "findLoadedVPN ?rs 1 < 0" by (simp add: findLoadedVPN_def)
  have h3: "\<not> length (loaded ?rs) < unat (maxFrames ?rs)" by simp
  have h4: "chooseVictimIndex ?rs = int 0" by (simp add: chooseVictimIndex_def int_of_size_def)
  have h5: "0 < length (loaded ?rs)" by simp
  have h6: "getFullVPN ?pt 0x20000000 = Some 1"
    by (simp add: getFullVPN_geometry [OF g] drop_bit_eq_div)
  have "getFullVPN ?pt 0 = Some 0" by (simp add: getFullVPN_geometry [OF g])
  then have h7: "\<exists>a. getFullVPN ?pt a = Some (fullVPN (loaded ?rs ! 0))" by auto
  have h8: "fullVPN (loaded ?rs ! 0) \<noteq> 1" by simp
  have h9: "0 \<le> sint (frameNumber (loaded ?rs ! 0))" by simp
  from eviction_path [OF wf h2 h3 h4 h5 h6 h7 h8 h9]
  obtain pt2 where "ensureResidentPage ?pt ?rs 0x20000000 1
             = Some (pt2,
                     ?rs\<lparr>loaded := (loaded ?rs)[0 := \<lparr>fullVPN = 1,
                                                      frameNumber = frameNumber (loaded ?rs ! 0),
                                                      ageBits = 0x8000, lastAccessTime = currentTime ?rs,
                                                      accessedThisInterval = True\<rparr>]\<rparr>,
                     \<lparr>pfn = frameNumber (loaded ?rs ! 0), didFault = True, didEvict = True,
                      evictedVPN = fullVPN (loaded ?rs ! 0),
                      evictedAgeBits = ageBits (loaded ?rs ! 0)\<rparr>)"
    by blast
  then show ?thesis using wf by simp
qed


section \<open>The invariants of a run\<close>

lemma residents_nth:
  "j < length (loaded rs) \<Longrightarrow> residents rs ! j = (fullVPN (loaded rs ! j), frameNumber (loaded rs ! j))"
  by (simp add: residents_def)

lemma residents_fields:
  "map fullVPN (loaded rs) = map fst (residents rs)"
  "map frameNumber (loaded rs) = map snd (residents rs)"
  "length (loaded rs) = length (residents rs)"
  by (simp_all add: residents_def comp_def)

lemma invariants_by_residents:
  assumes "residents rs' = residents rs" and "maxFrames rs' = maxFrames rs"
    and "nextFreeFrame rs' = nextFreeFrame rs"
  shows "residentInv rs' = residentInv rs" and "framesInOrder rs' = framesInOrder rs"
    and "consistent pt rs' = consistent pt rs"
    and "(\<forall>e \<in> set (loaded rs'). \<exists>a. getFullVPN pt a = Some (fullVPN e))
       = (\<forall>e \<in> set (loaded rs). \<exists>a. getFullVPN pt a = Some (fullVPN e))"
proof -
  have len: "length (loaded rs') = length (loaded rs)"
    using arg_cong [OF assms(1), of length] by (simp add: residents_def)
  have v: "map fullVPN (loaded rs') = map fullVPN (loaded rs)"
    and f: "map frameNumber (loaded rs') = map frameNumber (loaded rs)"
    using assms(1) by (simp_all add: residents_fields)
  show "residentInv rs' = residentInv rs" by (simp add: residentInv_def len v f assms(2))
  show "framesInOrder rs' = framesInOrder rs" by (simp add: framesInOrder_def len f assms(3))
  have nth: "fullVPN (loaded rs' ! j) = fullVPN (loaded rs ! j)
           \<and> frameNumber (loaded rs' ! j) = frameNumber (loaded rs ! j)" if "j < length (loaded rs)" for j
    using that len assms(1) residents_nth [of j rs] residents_nth [of j rs'] by simp
  show "consistent pt rs' = consistent pt rs"
    unfolding consistent_def len by (simp add: nth cong: conj_cong)
  have img: "fullVPN ` set (loaded rs') = fullVPN ` set (loaded rs)"
    using arg_cong [OF v, of set] by simp
  have "(\<forall>x \<in> fullVPN ` set (loaded rs'). \<exists>a. getFullVPN pt a = Some x)
       = (\<forall>x \<in> fullVPN ` set (loaded rs). \<exists>a. getFullVPN pt a = Some x)"
    by (simp only: img)
  then show "(\<forall>e \<in> set (loaded rs'). \<exists>a. getFullVPN pt a = Some (fullVPN e))
       = (\<forall>e \<in> set (loaded rs). \<exists>a. getFullVPN pt a = Some (fullVPN e))"
    by simp
qed

lemma residents_tick [simp]:
  "residents (tickReplacementClock rs) = residents rs"
  "maxFrames (tickReplacementClock rs) = maxFrames rs"
  "nextFreeFrame (tickReplacementClock rs) = nextFreeFrame rs"
  by (simp_all add: tickReplacementClock_def performAgingUpdate_def Let_def residents_def
        comp_def ageEntry_fields)

lemma noteLoop_residents:
  "map (\<lambda>e. (fullVPN e, frameNumber e)) (noteLoop now es v f) = map (\<lambda>e. (fullVPN e, frameNumber e)) es"
  by (induction es) auto

lemma residents_note [simp]:
  "residents (noteFrameAccess rs v f) = residents rs"
  "maxFrames (noteFrameAccess rs v f) = maxFrames rs"
  "nextFreeFrame (noteFrameAccess rs v f) = nextFreeFrame rs"
  by (simp_all add: noteFrameAccess_def residents_def noteLoop_residents)

lemma simInv_by_residents:
  assumes "residents rs' = residents rs" and "maxFrames rs' = maxFrames rs"
    and "nextFreeFrame rs' = nextFreeFrame rs"
  shows "simInv pt rs' = simInv pt rs"
  unfolding simInv_def
  by (simp only: invariants_by_residents [OF assms])

lemma consistent_mapsAs: "consistent pt rs = mapsAs pt (resident rs)"
  unfolding consistent_def mapsAs_def resident_def by (intro all_cong1 arg_cong2 [where f = "(=)"] refl) auto

lemma mapsAs_cong: "(\<And>w F. R w F = R' w F) \<Longrightarrow> mapsAs pt R = mapsAs pt R'"
  by (simp add: mapsAs_def)

lemma insert_mapsAs:
  assumes "wfPageTable pt" and "mapsAs pt R" and "getFullVPN pt va0 = Some w0"
    and "insertMapForVpn2Pfn pt va0 F0 = Some pt'"
  shows "mapsAs pt' (\<lambda>w F. if w = w0 then 0 \<le> sint F0 \<and> F = F0 else R w F)"
    and "wfPageTable pt'" and "levelBits pt' = levelBits pt"
    and "getFullVPN pt' = getFullVPN pt" and "offsetBits pt' = offsetBits pt"
proof -
  from insertMap_effect [OF assms(1), of va0 F0] assms(4) obtain r where
    pt': "pt' = pt\<lparr>rootLevel := r\<rparr>"
    and wf': "wfPageTable pt'"
    and t0: "translate pt' va0
               = Some (if 0 \<le> sint F0 then Some \<lparr>mapFrameNumber = F0, valid = True\<rparr> else None)"
    and other: "\<forall>va'. getFullVPN pt va' \<noteq> getFullVPN pt va0 \<longrightarrow> translate pt' va' = translate pt va'"
    by auto
  show "wfPageTable pt'" by (rule wf')
  show "levelBits pt' = levelBits pt" by (simp add: pt')
  show g: "getFullVPN pt' = getFullVPN pt" by (rule ext) (simp add: pt')
  show "offsetBits pt' = offsetBits pt" by (simp add: pt')
  show "mapsAs pt' (\<lambda>w F. if w = w0 then 0 \<le> sint F0 \<and> F = F0 else R w F)"
    unfolding mapsAs_def
  proof (intro allI)
    fix va m
    show "(translate pt' va = Some (Some m))
        = (\<exists>w F. getFullVPN pt' va = Some w \<and> (if w = w0 then 0 \<le> sint F0 \<and> F = F0 else R w F)
                 \<and> m = \<lparr>mapFrameNumber = F, valid = True\<rparr>)"
    proof (cases "getFullVPN pt va = getFullVPN pt va0")
      case True
      then have "getFullVPN pt' va = getFullVPN pt' va0" by (simp add: g)
      then have "translate pt' va = translate pt' va0" by (rule translate_same_page(1) [OF wf'])
      then show ?thesis using t0 True assms(3) by (auto simp add: g)
    next
      case False
      then have t: "translate pt' va = translate pt va" using other by simp
      have "(translate pt va = Some (Some m))
        = (\<exists>w F. getFullVPN pt va = Some w \<and> R w F \<and> m = \<lparr>mapFrameNumber = F, valid = True\<rparr>)"
        using assms(2) by (simp add: mapsAs_def)
      then show ?thesis using False assms(3) by (auto simp add: t g)
    qed
  qed
qed

lemma vpn_bound:
  assumes "hasGeometry bs pt" and "getFullVPN pt a = Some w"
  shows "unat w < 2 ^ sum_list (map unat bs)"
proof -
  note o = offset_width [OF assms(1)]
  let ?S = "sum_list (map unat bs)"
  have w: "w = drop_bit (32 - ?S) a" using assms(2) by (simp add: getFullVPN_geometry [OF assms(1)])
  have "unat a < 2 ^ 32" using unsigned_less [of a] by simp
  also have "(2 :: nat) ^ 32 = 2 ^ (32 - ?S) * 2 ^ ?S"
    using o(4) by (simp add: power_add [symmetric])
  finally have "unat a div 2 ^ (32 - ?S) < 2 ^ ?S"
    by (simp add: less_mult_imp_div_less mult.commute)
  then have "drop_bit (32 - ?S) (unat a) < 2 ^ ?S" by (simp add: drop_bit_eq_div)
  then show ?thesis by (simp only: w unat_drop_bit_eq)
qed

lemma distinct_bounded_length:
  assumes "distinct (ws :: u32 list)" and "\<forall>w \<in> set ws. unat w < N"
  shows "length ws \<le> N"
proof -
  have "inj_on unat (set ws)" by (simp add: inj_on_def word_unat_eq_iff)
  then have "card (unat ` set ws) = card (set ws)" by (rule card_image)
  also have "\<dots> = length ws" using assms(1) by (rule distinct_card)
  finally have "length ws = card (unat ` set ws)" by simp
  also have "\<dots> \<le> card {..<N}" using assms(2) by (intro card_mono) auto
  finally show ?thesis by simp
qed

lemma sint_of_nat_small: "j < 2 ^ 31 \<Longrightarrow> sint (of_nat j :: u32) = int j"
  using int_of_size_small [of j] by (simp add: int_of_size_def)

lemma distinct_frames_in_order:
  "n \<le> 2 ^ 32 \<Longrightarrow> distinct (map of_nat [0..<n] :: u32 list)"
proof -
  assume n: "n \<le> 2 ^ 32"
  have "inj_on (of_nat :: nat \<Rightarrow> u32) (set [0..<n])"
  proof (rule inj_onI)
    fix x y assume "x \<in> set [0..<n]" "y \<in> set [0..<n]" "(of_nat x :: u32) = of_nat y"
    then have "unat (of_nat x :: u32) = unat (of_nat y :: u32)" "x < 2 ^ 32" "y < 2 ^ 32"
      using n by auto
    then show "x = y" by (simp add: unat_of_nat)
  qed
  then show ?thesis by (simp add: distinct_map)
qed

text \<open>What the invariant gives at a miss.\<close>

lemma simInv_facts:
  assumes "simInv pt rs"
  shows "wfPageTable pt" and "hasGeometry (levelBits pt) pt"
    and "sum_list (map unat (levelBits pt)) \<le> 31"
    and "residentInv rs" and "framesInOrder rs" and "consistent pt rs"
    and "\<forall>e \<in> set (loaded rs). \<exists>a. getFullVPN pt a = Some (fullVPN e)"
    and "length (loaded rs) \<le> 2 ^ 31"
    and "\<forall>j < length (loaded rs). frameNumber (loaded rs ! j) = of_nat j"
    and "\<forall>j < length (loaded rs). 0 \<le> sint (frameNumber (loaded rs ! j))"
proof -
  show wf: "wfPageTable pt" and S: "sum_list (map unat (levelBits pt)) \<le> 31"
    and ri: "residentInv rs" and fo: "framesInOrder rs" and "consistent pt rs"
    and vp: "\<forall>e \<in> set (loaded rs). \<exists>a. getFullVPN pt a = Some (fullVPN e)"
    using assms by (simp_all add: simInv_def)
  show g: "hasGeometry (levelBits pt) pt" using wf by (rule wfPageTable_parts(1))
  have "\<forall>w \<in> set (map fullVPN (loaded rs)). unat w < 2 ^ sum_list (map unat (levelBits pt))"
    using vp vpn_bound [OF g] by auto
  then have "length (map fullVPN (loaded rs)) \<le> 2 ^ sum_list (map unat (levelBits pt))"
    using ri by (intro distinct_bounded_length) (simp_all add: residentInv_def)
  also have "\<dots> \<le> (2 :: nat) ^ 31" using S by (intro power_increasing) simp_all
  finally show len: "length (loaded rs) \<le> 2 ^ 31" by simp
  show fr: "\<forall>j < length (loaded rs). frameNumber (loaded rs ! j) = of_nat j"
  proof (intro allI impI)
    fix j assume j: "j < length (loaded rs)"
    have "map frameNumber (loaded rs) ! j = map of_nat [0..<length (loaded rs)] ! j"
      using fo by (simp add: framesInOrder_def)
    then show "frameNumber (loaded rs ! j) = of_nat j" using j by simp
  qed
  show "\<forall>j < length (loaded rs). 0 \<le> sint (frameNumber (loaded rs ! j))"
  proof (intro allI impI)
    fix j assume j: "j < length (loaded rs)"
    then have "j < 2 ^ 31" using len by simp
    then show "0 \<le> sint (frameNumber (loaded rs ! j))" using fr j by (simp add: sint_of_nat_small)
  qed
qed

lemma miss_not_resident:
  assumes "simInv pt rs" and "translate pt va = Some None" and "getFullVPN pt va = Some vpn"
  shows "\<forall>j < length (loaded rs). fullVPN (loaded rs ! j) \<noteq> vpn"
    and "findLoadedVPN rs vpn = - 1"
    and "Suc (length (loaded rs)) \<le> 2 ^ 31"
proof -
  note f = simInv_facts [OF assms(1)]
  show nr: "\<forall>j < length (loaded rs). fullVPN (loaded rs ! j) \<noteq> vpn"
  proof (intro allI impI notI)
    fix j assume j: "j < length (loaded rs)" "fullVPN (loaded rs ! j) = vpn"
    then have "translate pt va = Some (Some \<lparr>mapFrameNumber = frameNumber (loaded rs ! j), valid = True\<rparr>)"
      using f(6) assms(3) unfolding consistent_def by blast
    then show False using assms(2) by simp
  qed
  then have notin: "vpn \<notin> fullVPN ` set (loaded rs)"
    by (auto simp add: in_set_conv_nth)
  from findLoadedVPN_spec [OF f(8), of vpn] nr show "findLoadedVPN rs vpn = - 1" by auto
  have "distinct (vpn # map fullVPN (loaded rs))"
    using f(4) notin by (simp add: residentInv_def)
  moreover have "\<forall>w \<in> set (vpn # map fullVPN (loaded rs)). unat w < 2 ^ sum_list (map unat (levelBits pt))"
    using f(7) vpn_bound [OF f(2)] assms(3) by auto
  ultimately have "length (vpn # map fullVPN (loaded rs)) \<le> 2 ^ sum_list (map unat (levelBits pt))"
    by (rule distinct_bounded_length)
  also have "\<dots> \<le> (2 :: nat) ^ 31" using f(3) by (intro power_increasing) simp_all
  finally show "Suc (length (loaded rs)) \<le> 2 ^ 31" by simp
qed

lemma resident_append:
  assumes "\<forall>j < length es. fullVPN (es ! j) \<noteq> fullVPN new"
  shows "(\<exists>j < length (es @ [new]). fullVPN ((es @ [new]) ! j) = w \<and> frameNumber ((es @ [new]) ! j) = F)
       = (if w = fullVPN new then F = frameNumber new
          else (\<exists>j < length es. fullVPN (es ! j) = w \<and> frameNumber (es ! j) = F))"
proof (cases "w = fullVPN new")
  case True
  have "(\<exists>j < length (es @ [new]). fullVPN ((es @ [new]) ! j) = w \<and> frameNumber ((es @ [new]) ! j) = F)
      = (F = frameNumber new)"
  proof
    assume "\<exists>j < length (es @ [new]). fullVPN ((es @ [new]) ! j) = w \<and> frameNumber ((es @ [new]) ! j) = F"
    then obtain j where j: "j < Suc (length es)" "fullVPN ((es @ [new]) ! j) = w"
        "frameNumber ((es @ [new]) ! j) = F" by auto
    have "j = length es"
    proof (rule ccontr)
      assume "j \<noteq> length es"
      then have "j < length es" using j(1) by simp
      then show False using j(2) assms True by (simp add: nth_append)
    qed
    then show "F = frameNumber new" using j(3) by simp
  next
    assume "F = frameNumber new"
    then show "\<exists>j < length (es @ [new]). fullVPN ((es @ [new]) ! j) = w \<and> frameNumber ((es @ [new]) ! j) = F"
      using True by (intro exI [of _ "length es"]) simp
  qed
  then show ?thesis using True by simp
next
  case False
  have "(\<exists>j < length (es @ [new]). fullVPN ((es @ [new]) ! j) = w \<and> frameNumber ((es @ [new]) ! j) = F)
      = (\<exists>j < length es. fullVPN (es ! j) = w \<and> frameNumber (es ! j) = F)"
  proof
    assume "\<exists>j < length (es @ [new]). fullVPN ((es @ [new]) ! j) = w \<and> frameNumber ((es @ [new]) ! j) = F"
    then obtain j where j: "j < Suc (length es)" "fullVPN ((es @ [new]) ! j) = w"
        "frameNumber ((es @ [new]) ! j) = F" by auto
    have "j \<noteq> length es" using j(2) False by auto
    then have "j < length es" using j(1) by simp
    then show "\<exists>j < length es. fullVPN (es ! j) = w \<and> frameNumber (es ! j) = F"
      using j(2,3) by (intro exI [of _ j]) (simp add: nth_append)
  next
    assume "\<exists>j < length es. fullVPN (es ! j) = w \<and> frameNumber (es ! j) = F"
    then obtain j where "j < length es" "fullVPN (es ! j) = w" "frameNumber (es ! j) = F" by auto
    then show "\<exists>j < length (es @ [new]). fullVPN ((es @ [new]) ! j) = w \<and> frameNumber ((es @ [new]) ! j) = F"
      by (intro exI [of _ j]) (simp add: nth_append)
  qed
  then show ?thesis using False by simp
qed

lemma resident_update:
  assumes "v < length es" and "distinct (map fullVPN es)"
    and "\<forall>j < length es. fullVPN (es ! j) \<noteq> fullVPN new"
  shows "(\<exists>j < length (es[v := new]). fullVPN (es[v := new] ! j) = w \<and> frameNumber (es[v := new] ! j) = F)
       = (if w = fullVPN new then F = frameNumber new
          else if w = fullVPN (es ! v) then False
          else (\<exists>j < length es. fullVPN (es ! j) = w \<and> frameNumber (es ! j) = F))"
proof -
  have uniq: "j = v" if "j < length es" "fullVPN (es ! j) = fullVPN (es ! v)" for j
  proof -
    have "map fullVPN es ! j = map fullVPN es ! v" using that assms(1) by simp
    moreover have "j < length (map fullVPN es)" "v < length (map fullVPN es)"
      using that(1) assms(1) by simp_all
    ultimately show ?thesis using nth_eq_iff_index_eq [OF assms(2)] by blast
  qed
  have old: "fullVPN (es ! v) \<noteq> fullVPN new" using assms(1,3) by simp
  show ?thesis
  proof (cases "w = fullVPN new")
    case True
    have "(\<exists>j < length (es[v := new]). fullVPN (es[v := new] ! j) = w \<and> frameNumber (es[v := new] ! j) = F)
        = (F = frameNumber new)"
    proof
      assume "\<exists>j < length (es[v := new]). fullVPN (es[v := new] ! j) = w \<and> frameNumber (es[v := new] ! j) = F"
      then obtain j where j: "j < length es" "fullVPN (es[v := new] ! j) = w"
          "frameNumber (es[v := new] ! j) = F" by auto
      have "j = v"
      proof (rule ccontr)
        assume "j \<noteq> v"
        then show False using j(1,2) assms(3) True by simp
      qed
      then show "F = frameNumber new" using j(1,3) by simp
    next
      assume "F = frameNumber new"
      then show "\<exists>j < length (es[v := new]). fullVPN (es[v := new] ! j) = w \<and> frameNumber (es[v := new] ! j) = F"
        using True assms(1) by (intro exI [of _ v]) simp
    qed
    then show ?thesis using True by simp
  next
    case False
    show ?thesis
    proof (cases "w = fullVPN (es ! v)")
      case True
      have "\<not> (\<exists>j < length (es[v := new]). fullVPN (es[v := new] ! j) = w \<and> frameNumber (es[v := new] ! j) = F)"
      proof
        assume "\<exists>j < length (es[v := new]). fullVPN (es[v := new] ! j) = w \<and> frameNumber (es[v := new] ! j) = F"
        then obtain j where j: "j < length es" "fullVPN (es[v := new] ! j) = w" by auto
        show False
        proof (cases "j = v")
          case True
          then show False using j \<open>w \<noteq> fullVPN new\<close> by simp
        next
          case False
          then have "fullVPN (es ! j) = fullVPN (es ! v)" using j True by simp
          then show False using uniq [OF j(1)] False by simp
        qed
      qed
      then show ?thesis using True False by simp
    next
      case other: False
      have "(\<exists>j < length (es[v := new]). fullVPN (es[v := new] ! j) = w \<and> frameNumber (es[v := new] ! j) = F)
          = (\<exists>j < length es. fullVPN (es ! j) = w \<and> frameNumber (es ! j) = F)"
      proof
        assume "\<exists>j < length (es[v := new]). fullVPN (es[v := new] ! j) = w \<and> frameNumber (es[v := new] ! j) = F"
        then obtain j where j: "j < length es" "fullVPN (es[v := new] ! j) = w"
            "frameNumber (es[v := new] ! j) = F" by auto
        have "j \<noteq> v" using j(1,2) False by auto
        then show "\<exists>j < length es. fullVPN (es ! j) = w \<and> frameNumber (es ! j) = F"
          using j by (intro exI [of _ j]) simp
      next
        assume "\<exists>j < length es. fullVPN (es ! j) = w \<and> frameNumber (es ! j) = F"
        then obtain j where j: "j < length es" "fullVPN (es ! j) = w" "frameNumber (es ! j) = F" by auto
        have "j \<noteq> v" using j(2) other by auto
        then show "\<exists>j < length (es[v := new]). fullVPN (es[v := new] ! j) = w \<and> frameNumber (es[v := new] ! j) = F"
          using j by (intro exI [of _ j]) simp
      qed
      then show ?thesis using False other by simp
    qed
  qed
qed

lemma resident_loaded: "resident rs w F
    = (\<exists>j < length (loaded rs). fullVPN (loaded rs ! j) = w \<and> frameNumber (loaded rs ! j) = F)"
  by (simp add: resident_def)

lemma allocate_simInv:
  assumes inv: "simInv pt rs" and miss: "translate pt va = Some None"
    and vpn: "getFullVPN pt va = Some vpn"
    and room: "length (loaded rs) < unat (maxFrames rs)"
  shows "\<exists>pt'. ensureResidentPage pt rs va vpn
           = Some (pt',
                   rs\<lparr>nextFreeFrame := nextFreeFrame rs + 1,
                      loaded := loaded rs @ [\<lparr>fullVPN = vpn, frameNumber = nextFreeFrame rs,
                                              ageBits = 0x8000, lastAccessTime = currentTime rs,
                                              accessedThisInterval = True\<rparr>]\<rparr>,
                   \<lparr>pfn = nextFreeFrame rs, didFault = True, didEvict = False,
                    evictedVPN = 0, evictedAgeBits = 0\<rparr>)
         \<and> simInv pt' (rs\<lparr>nextFreeFrame := nextFreeFrame rs + 1,
                      loaded := loaded rs @ [\<lparr>fullVPN = vpn, frameNumber = nextFreeFrame rs,
                                              ageBits = 0x8000, lastAccessTime = currentTime rs,
                                              accessedThisInterval = True\<rparr>]\<rparr>)
         \<and> levelBits pt' = levelBits pt"
proof -
  note f = simInv_facts [OF inv]
  note m = miss_not_resident [OF inv miss vpn]
  define new where "new = \<lparr>fullVPN = vpn, frameNumber = nextFreeFrame rs,
      ageBits = 0x8000, lastAccessTime = currentTime rs, accessedThisInterval = True\<rparr>"
  define rs' where "rs' = rs\<lparr>nextFreeFrame := nextFreeFrame rs + 1, loaded := loaded rs @ [new]\<rparr>"
  have nf: "nextFreeFrame rs = of_nat (length (loaded rs))"
    and frames: "map frameNumber (loaded rs) = map of_nat [0..<length (loaded rs)]"
    using f(5) by (simp_all add: framesInOrder_def)
  have "length (loaded rs) < 2 ^ 31" using m(3) by simp
  then have pos: "0 \<le> sint (nextFreeFrame rs)"
    unfolding nf by (simp only: sint_of_nat_small)
  obtain r where ins: "insertMapForVpn2Pfn pt va (nextFreeFrame rs) = Some (pt\<lparr>rootLevel := r\<rparr>)"
    using insertMap_effect [OF f(1), of va "nextFreeFrame rs"] by blast
  define pt' where "pt' = pt\<lparr>rootLevel := r\<rparr>"
  note ins' = ins [folded pt'_def]
  note after = insert_mapsAs [OF f(1) f(6) [unfolded consistent_mapsAs] vpn ins']
  have run: "ensureResidentPage pt rs va vpn
      = Some (pt', rs', \<lparr>pfn = nextFreeFrame rs, didFault = True, didEvict = False,
                         evictedVPN = 0, evictedAgeBits = 0\<rparr>)"
    using m(2) room by (simp add: ensureResidentPage_allocate ins' rs'_def new_def)
  have fresh: "\<forall>j < length (loaded rs). fullVPN (loaded rs ! j) \<noteq> fullVPN new"
    using m(1) by (simp add: new_def)
  have rel: "resident rs' w F
      = (if w = vpn then 0 \<le> sint (nextFreeFrame rs) \<and> F = nextFreeFrame rs else resident rs w F)"
    for w F
    using resident_append [OF fresh, of w F] pos
    by (simp add: resident_loaded rs'_def) (simp add: new_def)
  have cons: "consistent pt' rs'"
    unfolding consistent_mapsAs using after(1) mapsAs_cong [of "resident rs'", OF rel] by simp
  have order: "framesInOrder rs'"
    unfolding framesInOrder_def by (simp add: rs'_def new_def nf frames)
  have notin: "vpn \<notin> fullVPN ` set (loaded rs)"
    using m(1) by (auto simp add: in_set_conv_nth)
  have len: "Suc (length (loaded rs)) \<le> 2 ^ 32"
    using m(3) by simp
  have "distinct (map frameNumber (loaded rs'))"
    using order distinct_frames_in_order [of "length (loaded rs')"] len
    by (simp add: framesInOrder_def rs'_def)
  then have ri: "residentInv rs'"
    using f(4) room notin by (simp add: residentInv_def rs'_def new_def)
  have valid: "\<forall>e \<in> set (loaded rs'). \<exists>a. getFullVPN pt' a = Some (fullVPN e)"
    using f(7) vpn by (auto simp add: rs'_def new_def after(4))
  have "simInv pt' rs'"
    unfolding simInv_def using after(2,3) f(3) ri order valid cons by simp
  then show ?thesis using run after(3) unfolding rs'_def new_def by blast
qed

lemma evict_simInv:
  assumes inv: "simInv pt rs" and miss: "translate pt va = Some None"
    and vpn: "getFullVPN pt va = Some vpn"
    and full: "\<not> length (loaded rs) < unat (maxFrames rs)"
    and victim: "chooseVictimIndex rs = int v" "v < length (loaded rs)"
  shows "\<exists>pt'. ensureResidentPage pt rs va vpn
           = Some (pt',
                   rs\<lparr>loaded := (loaded rs)[v := \<lparr>fullVPN = vpn,
                                                    frameNumber = frameNumber (loaded rs ! v),
                                                    ageBits = 0x8000, lastAccessTime = currentTime rs,
                                                    accessedThisInterval = True\<rparr>]\<rparr>,
                   \<lparr>pfn = frameNumber (loaded rs ! v), didFault = True, didEvict = True,
                    evictedVPN = fullVPN (loaded rs ! v),
                    evictedAgeBits = ageBits (loaded rs ! v)\<rparr>)
         \<and> simInv pt' (rs\<lparr>loaded := (loaded rs)[v := \<lparr>fullVPN = vpn,
                                                    frameNumber = frameNumber (loaded rs ! v),
                                                    ageBits = 0x8000, lastAccessTime = currentTime rs,
                                                    accessedThisInterval = True\<rparr>]\<rparr>)
         \<and> levelBits pt' = levelBits pt"
proof -
  note f = simInv_facts [OF inv]
  note m = miss_not_resident [OF inv miss vpn]
  define old where "old = loaded rs ! v"
  define new where "new = \<lparr>fullVPN = vpn, frameNumber = frameNumber old,
      ageBits = 0x8000, lastAccessTime = currentTime rs, accessedThisInterval = True\<rparr>"
  define rs' where "rs' = rs\<lparr>loaded := (loaded rs)[v := new]\<rparr>"
  have mem: "old \<in> set (loaded rs)" using victim(2) by (simp add: old_def)
  then obtain a where a: "getFullVPN pt a = Some (fullVPN old)" using f(7) by blast
  obtain victimVA where vva: "shl (fullVPN old) (offsetBits pt) = Some victimVA"
      "getFullVPN pt victimVA = Some (fullVPN old)"
    using victim_address [OF f(2) a] by blast
  have differ: "fullVPN old \<noteq> vpn" using m(1) victim(2) by (simp add: old_def)
  have pos: "0 \<le> sint (frameNumber old)" using f(10) victim(2) by (simp add: old_def)
  obtain r1 where ins1: "insertMapForVpn2Pfn pt victimVA (- 1) = Some (pt\<lparr>rootLevel := r1\<rparr>)"
    using insertMap_effect [OF f(1), of victimVA "- 1"] by blast
  define pt1 where "pt1 = pt\<lparr>rootLevel := r1\<rparr>"
  note ins1' = ins1 [folded pt1_def]
  note a1 = insert_mapsAs [OF f(1) f(6) [unfolded consistent_mapsAs] vva(2) ins1']
  obtain r2 where ins2: "insertMapForVpn2Pfn pt1 va (frameNumber old) = Some (pt1\<lparr>rootLevel := r2\<rparr>)"
    using insertMap_effect [OF a1(2), of va "frameNumber old"] by blast
  define pt2 where "pt2 = pt1\<lparr>rootLevel := r2\<rparr>"
  note ins2' = ins2 [folded pt2_def]
  have vpn1: "getFullVPN pt1 va = Some vpn" using vpn by (simp add: a1(4))
  note a2 = insert_mapsAs [OF a1(2) a1(1) vpn1 ins2']
  have run: "ensureResidentPage pt rs va vpn
      = Some (pt2, rs', \<lparr>pfn = frameNumber old, didFault = True, didEvict = True,
                         evictedVPN = fullVPN old, evictedAgeBits = ageBits old\<rparr>)"
    using m(2) full victim
    by (simp add: ensureResidentPage_evict [where v = v] old_def [symmetric] vva(1) a1(5) ins1' ins2'
        rs'_def new_def)
  have fresh: "\<forall>j < length (loaded rs). fullVPN (loaded rs ! j) \<noteq> fullVPN new"
    using m(1) by (simp add: new_def)
  have dv: "distinct (map fullVPN (loaded rs))" and df: "distinct (map frameNumber (loaded rs))"
    and budget: "length (loaded rs) \<le> unat (maxFrames rs)"
    using f(4) by (simp_all add: residentInv_def)
  have neg: "\<not> 0 \<le> sint (- 1 :: u32)" by simp
  have rel: "resident rs' w F
      = (if w = vpn then 0 \<le> sint (frameNumber old) \<and> F = frameNumber old
         else if w = fullVPN old then 0 \<le> sint (- 1 :: u32) \<and> F = - 1
         else resident rs w F)"
    for w F
    using resident_update [OF victim(2) dv fresh, of w F] pos neg
    by (simp add: resident_loaded rs'_def old_def [symmetric]) (simp add: new_def)
  have cons: "consistent pt2 rs'"
    unfolding consistent_mapsAs using a2(1) mapsAs_cong [of "resident rs'", OF rel] by simp
  have same_frames: "map frameNumber (loaded rs') = map frameNumber (loaded rs)"
    using victim(2) by (simp add: rs'_def map_update new_def old_def list_update_same_conv)
  have order: "framesInOrder rs'"
    using f(5) same_frames by (simp add: framesInOrder_def) (simp add: rs'_def)
  have notin: "vpn \<notin> set (map fullVPN (loaded rs)) - {map fullVPN (loaded rs) ! v}"
    using m(1) by (auto simp add: in_set_conv_nth)
  have "distinct ((map fullVPN (loaded rs))[v := vpn])"
    using dv notin by (rule distinct_list_update)
  then have "distinct (map fullVPN (loaded rs'))"
    by (simp add: rs'_def map_update new_def)
  then have ri: "residentInv rs'"
    using df budget same_frames by (simp add: residentInv_def) (simp add: rs'_def)
  have g2: "getFullVPN pt2 = getFullVPN pt" by (simp add: a2(4) a1(4))
  have sub: "set (loaded rs') \<subseteq> insert new (set (loaded rs))"
    by (simp add: rs'_def set_update_subset_insert)
  have valid: "\<forall>e \<in> set (loaded rs'). \<exists>a. getFullVPN pt2 a = Some (fullVPN e)"
  proof
    fix e assume "e \<in> set (loaded rs')"
    then have "e = new \<or> e \<in> set (loaded rs)" using sub by blast
    then show "\<exists>a. getFullVPN pt2 a = Some (fullVPN e)"
    proof
      assume "e = new"
      then show ?thesis using vpn by (auto simp add: g2 new_def)
    next
      assume "e \<in> set (loaded rs)"
      then show ?thesis using f(7) by (simp add: g2)
    qed
  qed
  have "simInv pt2 rs'"
    unfolding simInv_def using a2(2,3) a1(3) f(3) ri order valid cons by simp
  moreover have "levelBits pt2 = levelBits pt" by (simp add: a2(3) a1(3))
  ultimately show ?thesis using run unfolding rs'_def new_def old_def by blast
qed

lemma noteLoop_absent:
  "\<not> (\<exists>j < length es. fullVPN (es ! j) = w \<and> frameNumber (es ! j) = F) \<Longrightarrow> noteLoop now es w F = es"
proof (induction es)
  case Nil
  then show ?case by simp
next
  case (Cons e es)
  have head: "\<not> (fullVPN e = w \<and> frameNumber e = F)"
    using Cons.prems by (auto dest: spec [of _ 0])
  have "\<not> (\<exists>j < length es. fullVPN (es ! j) = w \<and> frameNumber (es ! j) = F)"
  proof
    assume "\<exists>j < length es. fullVPN (es ! j) = w \<and> frameNumber (es ! j) = F"
    then obtain j where "j < length es" "fullVPN (es ! j) = w \<and> frameNumber (es ! j) = F" by blast
    then have "Suc j < length (e # es) \<and> fullVPN ((e # es) ! Suc j) = w \<and> frameNumber ((e # es) ! Suc j) = F"
      by simp
    then show False using Cons.prems by blast
  qed
  then have "noteLoop now es w F = es" by (rule Cons.IH)
  then show ?case using head by auto
qed

lemma note_absent: "\<not> resident rs w F \<Longrightarrow> noteFrameAccess rs w F = rs"
  by (simp add: resident_def noteFrameAccess_def noteLoop_absent)

lemma noteLoop_present:
  "\<exists>j < length es. fullVPN (es ! j) = w \<and> frameNumber (es ! j) = F \<Longrightarrow>
   \<exists>j < length es. fullVPN (noteLoop now es w F ! j) = w \<and> frameNumber (noteLoop now es w F ! j) = F
      \<and> lastAccessTime (noteLoop now es w F ! j) = now
      \<and> accessedThisInterval (noteLoop now es w F ! j)"
proof (induction es)
  case Nil
  then show ?case by simp
next
  case (Cons e es)
  show ?case
  proof (cases "fullVPN e = w \<and> frameNumber e = F")
    case True
    then show ?thesis by (intro exI [of _ 0]) simp
  next
    case False
    from Cons.prems obtain j where j: "j < length (e # es)"
        "fullVPN ((e # es) ! j) = w \<and> frameNumber ((e # es) ! j) = F" by blast
    then obtain i where i: "j = Suc i" using False by (cases j) auto
    then have "\<exists>j < length es. fullVPN (es ! j) = w \<and> frameNumber (es ! j) = F"
      using j by auto
    from Cons.IH [OF this] obtain k where k: "k < length es"
        "fullVPN (noteLoop now es w F ! k) = w \<and> frameNumber (noteLoop now es w F ! k) = F
          \<and> lastAccessTime (noteLoop now es w F ! k) = now
          \<and> accessedThisInterval (noteLoop now es w F ! k)" by blast
    have "noteLoop now (e # es) w F = e # noteLoop now es w F" using False by auto
    then show ?thesis using k by (intro exI [of _ "Suc k"]) simp
  qed
qed

lemma note_present: "resident rs w F \<Longrightarrow> noted (noteFrameAccess rs w F) w F"
  using noteLoop_present [of "loaded rs" w F "currentTime rs"]
  by (simp add: resident_def noted_def noteFrameAccess_def)

lemma noted_resident: "noted rs w F \<Longrightarrow> resident rs w F"
  by (auto simp add: noted_def resident_def)

lemma resident_residents: "resident rs w F = ((w, F) \<in> set (residents rs))"
proof
  assume "resident rs w F"
  then obtain j where j: "j < length (loaded rs)" "fullVPN (loaded rs ! j) = w"
      "frameNumber (loaded rs ! j) = F" by (auto simp add: resident_def)
  then have "residents rs ! j = (w, F)" by (simp add: residents_nth)
  moreover have "j < length (residents rs)" using j(1) by (simp add: residents_def)
  ultimately show "(w, F) \<in> set (residents rs)" by (metis nth_mem)
next
  assume "(w, F) \<in> set (residents rs)"
  then obtain j where j: "j < length (residents rs)" "residents rs ! j = (w, F)"
    by (auto simp add: in_set_conv_nth)
  then have "j < length (loaded rs)" by (simp add: residents_def)
  then show "resident rs w F"
    using j(2) unfolding resident_def by (intro exI [of _ j]) (simp add: residents_nth)
qed

lemma noteLoop_clock:
  "list_all (\<lambda>e. lastAccessTime e \<le> now) es \<Longrightarrow>
   list_all (\<lambda>e. lastAccessTime e \<le> now) (noteLoop now es w F)"
  by (induction es) auto

lemma clock_note: "clockInv rs n \<Longrightarrow> clockInv (noteFrameAccess rs w F) n"
  by (simp add: clockInv_def noteFrameAccess_def noteLoop_clock)

lemma clock_tick:
  assumes "clockInv rs n" and "Suc n < 2 ^ 32"
  shows "clockInv (tickReplacementClock rs) (Suc n)"
proof -
  have n: "unat (currentTime rs) = n"
    and old: "list_all (\<lambda>e. lastAccessTime e \<le> currentTime rs) (loaded rs)"
    using assms(1) by (simp_all add: clockInv_def)
  have next_time: "unat (currentTime rs + 1) = Suc n"
    using n assms(2) by (simp add: unat_word_ariths)
  have up: "currentTime rs \<le> currentTime rs + 1"
    using n next_time by (simp add: word_le_nat_alt)
  have later: "list_all (\<lambda>e. lastAccessTime e \<le> currentTime rs + 1) es"
    if "list_all (\<lambda>e. lastAccessTime e \<le> currentTime rs) es" for es
    using that up by (induction es) auto
  have aged: "list_all (\<lambda>e. lastAccessTime e \<le> currentTime rs + 1) (map ageEntry es)"
    if "list_all (\<lambda>e. lastAccessTime e \<le> currentTime rs) es" for es
    using that up by (induction es) (auto simp add: ageEntry_fields)
  show ?thesis
    using next_time later [OF old] aged [OF old]
    by (simp add: clockInv_def tickReplacementClock_def Let_def performAgingUpdate_def)
qed

lemma translate_total:
  assumes "wfPageTable pt"
  shows "\<exists>m. translate pt va = Some m"
proof -
  note p = wfPageTable_parts [OF assms]
  from searchLoop_total [OF p(1) p(3) p(2), of va]
  show ?thesis by (auto simp add: translate_eq)
qed

lemma list_all_update:
  "list_all P xs \<Longrightarrow> P x \<Longrightarrow> list_all P (xs[i := x])"
proof -
  assume a: "list_all P xs" "P x"
  have "set (xs[i := x]) \<subseteq> insert x (set xs)" by (rule set_update_subset_insert)
  then show ?thesis using a unfolding list_all_iff by blast
qed

lemma victim_exists:
  assumes inv: "simInv pt rs" and budget: "0 < maxFrames rs" and clock: "clockInv rs n"
    and n: "n < 2 ^ 32 - 1" and full: "\<not> length (loaded rs) < unat (maxFrames rs)"
  shows "\<exists>v < length (loaded rs). chooseVictimIndex rs = int v"
proof -
  note f = simInv_facts [OF inv]
  have "0 < unat (maxFrames rs)" using budget by (simp add: word_less_nat_alt)
  then have "loaded rs \<noteq> []" using full by auto
  then obtain e where e: "e \<in> set (loaded rs)" by (cases "loaded rs") auto
  have "lastAccessTime e \<le> currentTime rs" and now: "unat (currentTime rs) = n"
    using clock e by (simp_all add: clockInv_def list_all_iff)
  then have "unat (lastAccessTime e) \<le> n" by (simp add: word_le_nat_alt)
  moreover have "unat (- 1 :: u32) = 2 ^ 32 - 1"
    by (simp add: unsigned_minus_1_eq_mask mask_eq_exp_minus_1)
  ultimately have "unat (lastAccessTime e) \<noteq> unat (- 1 :: u32)" using n by simp
  then have "lastAccessTime e \<noteq> - 1" by auto
  then have "ageKey e \<noteq> (- 1, - 1)" by (simp add: ageKey_def)
  with e have "\<exists>e \<in> set (loaded rs). ageKey e \<noteq> (- 1, - 1)" by blast
  from chooseVictimIndex_spec [OF f(8) this] show ?thesis by blast
qed

lemma fault_simInv:
  assumes inv: "simInv pt rs" and miss: "translate pt va = Some None"
    and vpn: "getFullVPN pt va = Some vpn"
    and victim: "length (loaded rs) < unat (maxFrames rs) \<or> chooseVictimIndex rs \<noteq> - 1"
  shows "\<exists>pt' rs' res. ensureResidentPage pt rs va vpn = Some (pt', rs', res)
           \<and> simInv pt' rs' \<and> (clockInv rs n \<longrightarrow> clockInv rs' n)
           \<and> maxFrames rs' = maxFrames rs
           \<and> resident rs' vpn (pfn res) \<and> didFault res \<and> levelBits pt' = levelBits pt"
proof (cases "length (loaded rs) < unat (maxFrames rs)")
  case True
  define new where "new = \<lparr>fullVPN = vpn, frameNumber = nextFreeFrame rs,
      ageBits = 0x8000, lastAccessTime = currentTime rs, accessedThisInterval = True\<rparr>"
  define rs' where "rs' = rs\<lparr>nextFreeFrame := nextFreeFrame rs + 1, loaded := loaded rs @ [new]\<rparr>"
  from allocate_simInv [OF inv miss vpn True]
  obtain pt' where run: "ensureResidentPage pt rs va vpn
        = Some (pt', rs', \<lparr>pfn = nextFreeFrame rs, didFault = True, didEvict = False,
                           evictedVPN = 0, evictedAgeBits = 0\<rparr>)"
    and inv': "simInv pt' rs'" and same: "levelBits pt' = levelBits pt"
    unfolding rs'_def new_def by blast
  have "clockInv rs n \<longrightarrow> clockInv rs' n" by (simp add: clockInv_def rs'_def new_def)
  moreover have "resident rs' vpn (nextFreeFrame rs)"
    unfolding resident_def by (intro exI [of _ "length (loaded rs)"]) (simp add: rs'_def new_def)
  moreover have "maxFrames rs' = maxFrames rs" by (simp add: rs'_def)
  ultimately show ?thesis using run inv' same by simp
next
  case False
  note f = simInv_facts [OF inv]
  have "chooseVictimIndex rs \<noteq> - 1" using victim False by simp
  with chooseVictimIndex_range [OF f(8)]
  have "0 \<le> chooseVictimIndex rs" "chooseVictimIndex rs < int (length (loaded rs))" by simp_all
  then obtain v where v: "v < length (loaded rs)" "chooseVictimIndex rs = int v"
    by (cases "chooseVictimIndex rs") auto
  define new where "new = \<lparr>fullVPN = vpn, frameNumber = frameNumber (loaded rs ! v),
      ageBits = 0x8000, lastAccessTime = currentTime rs, accessedThisInterval = True\<rparr>"
  define rs' where "rs' = rs\<lparr>loaded := (loaded rs)[v := new]\<rparr>"
  from evict_simInv [OF inv miss vpn False v(2) v(1)]
  obtain pt' where run: "ensureResidentPage pt rs va vpn
        = Some (pt', rs', \<lparr>pfn = frameNumber (loaded rs ! v), didFault = True, didEvict = True,
                    evictedVPN = fullVPN (loaded rs ! v),
                    evictedAgeBits = ageBits (loaded rs ! v)\<rparr>)"
    and inv': "simInv pt' rs'" and same: "levelBits pt' = levelBits pt"
    unfolding rs'_def new_def by blast
  have "clockInv rs n \<longrightarrow> clockInv rs' n"
  proof
    assume clock: "clockInv rs n"
    then have "list_all (\<lambda>e. lastAccessTime e \<le> currentTime rs) ((loaded rs)[v := new])"
      by (intro list_all_update) (simp_all add: clockInv_def new_def)
    then show "clockInv rs' n" using clock by (simp add: clockInv_def rs'_def)
  qed
  moreover have "resident rs' vpn (frameNumber (loaded rs ! v))"
    unfolding resident_def using v(1) by (intro exI [of _ v]) (simp add: rs'_def new_def)
  moreover have "maxFrames rs' = maxFrames rs" by (simp add: rs'_def)
  ultimately show ?thesis using run inv' same by simp
qed

lemma fault_undefined:
  assumes inv: "simInv pt rs" and miss: "translate pt va = Some None"
    and vpn: "getFullVPN pt va = Some vpn"
    and full: "\<not> length (loaded rs) < unat (maxFrames rs)" and none: "chooseVictimIndex rs = - 1"
  shows "ensureResidentPage pt rs va vpn = None"
proof -
  have "findLoadedVPN rs vpn < 0" using miss_not_resident(2) [OF inv miss vpn] by simp
  then show ?thesis using full none by (rule ensureResidentPage_no_victim)
qed

lemma hit_resident:
  assumes "simInv pt rs" and "translate pt va = Some (Some mp)" and "getFullVPN pt va = Some vpn"
  shows "resident rs vpn (mapFrameNumber mp)"
proof -
  have "consistent pt rs" using assms(1) by (simp add: simInv_def)
  then obtain j where "j < length (loaded rs)" "getFullVPN pt va = Some (fullVPN (loaded rs ! j))"
      "mp = \<lparr>mapFrameNumber = frameNumber (loaded rs ! j), valid = True\<rparr>"
    using assms(2) unfolding consistent_def by blast
  then show ?thesis using assms(3) unfolding resident_def by (intro exI [of _ j]) simp
qed

lemma compose_total:
  assumes "wfPageTable pt"
  shows "\<exists>pa. composePhysicalAddress pt F x = Some pa"
proof -
  have "offsetBits pt < 32" using wfPageTable_parts(1) [OF assms] by (rule offset_width(2))
  then show ?thesis by (simp add: composePhysicalAddress_def shl_Some)
qed

lemma length_tick [simp]: "length (loaded (tickReplacementClock rs)) = length (loaded rs)"
  by (simp add: tickReplacementClock_def Let_def performAgingUpdate_def)

lemma resident_translate:
  assumes "simInv pt rs" and "resident rs w F" and "getFullVPN pt va = Some w"
  shows "translate pt va = Some (Some \<lparr>mapFrameNumber = F, valid = True\<rparr>)"
proof -
  have c: "consistent pt rs" using assms(1) by (simp add: simInv_def)
  obtain j where j: "j < length (loaded rs)" "fullVPN (loaded rs ! j) = w"
      "frameNumber (loaded rs ! j) = F" using assms(2) by (auto simp add: resident_def)
  have "\<exists>j < length (loaded rs). getFullVPN pt va = Some (fullVPN (loaded rs ! j))
          \<and> \<lparr>mapFrameNumber = F, valid = True\<rparr>
              = \<lparr>mapFrameNumber = frameNumber (loaded rs ! j), valid = True\<rparr>"
    using j assms(3) by (intro exI [of _ j]) simp
  then show ?thesis using c unfolding consistent_def by blast
qed

lemma same_widths_vpn:
  assumes "wfPageTable pt" and "wfPageTable pt'" and "levelBits pt' = levelBits pt"
  shows "getFullVPN pt' va = getFullVPN pt va"
  using getFullVPN_geometry [OF wfPageTable_parts(1) [OF assms(1)], of va]
    getFullVPN_geometry [OF wfPageTable_parts(1) [OF assms(2)], of va] assms(3)
  by simp

lemma processAddress_step:
  assumes inv: "simInv (simTable sim) (simReplacement sim)" and defined: "stepDefined sim va"
  shows "\<exists>sim' ev vpn. processAddress sim va = Some (sim', ev)
        \<and> simInv (simTable sim') (simReplacement sim')
        \<and> (clockInv (simReplacement sim) n \<and> Suc n < 2 ^ 32
              \<longrightarrow> clockInv (simReplacement sim') (Suc n))
        \<and> maxFrames (simReplacement sim') = maxFrames (simReplacement sim)
        \<and> levelBits (simTable sim') = levelBits (simTable sim)
        \<and> getFullVPN (simTable sim) va = Some vpn
        \<and> evHit ev = (translate (simTable sim) va \<noteq> Some None)
        \<and> (evHit ev \<longrightarrow> simTable sim' = simTable sim
              \<and> resident (simReplacement sim) vpn (evFrame ev)
              \<and> translate (simTable sim) va
                  = Some (Some \<lparr>mapFrameNumber = evFrame ev, valid = True\<rparr>))
        \<and> noted (simReplacement sim') vpn (evFrame ev)
        \<and> translate (simTable sim') va
            = Some (Some \<lparr>mapFrameNumber = evFrame ev, valid = True\<rparr>)"
proof -
  define pt where "pt = simTable sim"
  define rs where "rs = simReplacement sim"
  define rs1 where "rs1 = tickReplacementClock rs"
  have inv1: "simInv pt rs1"
    unfolding rs1_def using inv simInv_by_residents [of "tickReplacementClock rs" rs pt]
    by (simp add: pt_def rs_def)
  have clock1: "clockInv rs1 (Suc n)" if "clockInv rs n" "Suc n < 2 ^ 32"
    unfolding rs1_def using that by (rule clock_tick)
  have wf: "wfPageTable pt" using inv1 by (simp add: simInv_def)
  obtain m where tr: "translate pt va = Some m" using translate_total [OF wf] by blast
  have search: "searchMappedPfn pt va = Some (m, pt)"
    by (simp add: searchMappedPfn_translate tr)
  obtain vpn where vpn: "getFullVPN pt va = Some vpn"
    using getFullVPN_geometry [OF wfPageTable_parts(1) [OF wf]] by blast
  show ?thesis
  proof (cases m)
    case None
    have "length (loaded rs1) < unat (maxFrames rs1) \<or> chooseVictimIndex rs1 \<noteq> - 1"
      using defined tr None by (simp add: stepDefined_def pt_def rs_def rs1_def)
    from fault_simInv [OF inv1 tr [unfolded None] vpn this, of "Suc n"]
    obtain pt' rs' res where run: "ensureResidentPage pt rs1 va vpn = Some (pt', rs', res)"
      and inv': "simInv pt' rs'" and clock': "clockInv rs1 (Suc n) \<longrightarrow> clockInv rs' (Suc n)"
      and mf: "maxFrames rs' = maxFrames rs1" and here: "resident rs' vpn (pfn res)"
      and same: "levelBits pt' = levelBits pt"
      by blast
    define rs3 where "rs3 = noteFrameAccess rs' vpn (pfn res)"
    have inv3: "simInv pt' rs3"
      unfolding rs3_def using inv' simInv_by_residents [of "noteFrameAccess rs' vpn (pfn res)" rs' pt']
      by simp
    have wf': "wfPageTable pt'" using inv' by (simp add: simInv_def)
    obtain pa where pa: "composePhysicalAddress pt' (pfn res) (getOffsetFromVA pt' va) = Some pa"
      using compose_total [OF wf'] by blast
    have "\<exists>st. processAddress sim va
        = Some (\<lparr>simTable = pt', simReplacement = rs3, simStats = st\<rparr>,
                \<lparr>evHit = False, evFrame = pfn res, evPhysicalAddress = pa, evFault = res\<rparr>)"
      using search vpn run pa
      by (simp add: processAddress_def Let_def pt_def [symmetric] rs_def [symmetric]
          rs1_def [symmetric] None rs3_def [symmetric])
    then obtain st where step: "processAddress sim va
        = Some (\<lparr>simTable = pt', simReplacement = rs3, simStats = st\<rparr>,
                \<lparr>evHit = False, evFrame = pfn res, evPhysicalAddress = pa, evFault = res\<rparr>)"
      by blast
    have noted3: "noted rs3 vpn (pfn res)" unfolding rs3_def using here by (rule note_present)
    have vpn': "getFullVPN pt' va = Some vpn"
      using same_widths_vpn [OF wf wf' same] vpn by simp
    have after: "translate pt' va = Some (Some \<lparr>mapFrameNumber = pfn res, valid = True\<rparr>)"
      using inv3 noted_resident [OF noted3] vpn' by (rule resident_translate)
    have "clockInv rs3 (Suc n)" if "clockInv rs n" "Suc n < 2 ^ 32"
      unfolding rs3_def using clock' clock1 [OF that] by (intro clock_note) simp
    then have "clockInv rs n \<and> Suc n < 2 ^ 32 \<longrightarrow> clockInv rs3 (Suc n)" by simp
    moreover have "maxFrames rs3 = maxFrames (simReplacement sim)"
      by (simp add: rs3_def mf rs1_def rs_def)
    ultimately show ?thesis
      using step inv3 same vpn noted3 after tr None
      by (intro exI [of _ "\<lparr>simTable = pt', simReplacement = rs3, simStats = st\<rparr>"]
            exI [of _ "\<lparr>evHit = False, evFrame = pfn res, evPhysicalAddress = pa, evFault = res\<rparr>"]
            exI [of _ vpn])
         (simp add: pt_def rs_def)
  next
    case (Some mp)
    define rs3 where "rs3 = noteFrameAccess rs1 vpn (mapFrameNumber mp)"
    have inv3: "simInv pt rs3"
      unfolding rs3_def
      using inv1 simInv_by_residents [of "noteFrameAccess rs1 vpn (mapFrameNumber mp)" rs1 pt]
      by simp
    have here1: "resident rs1 vpn (mapFrameNumber mp)"
      using inv1 tr [unfolded Some] vpn by (rule hit_resident)
    then have here: "resident rs vpn (mapFrameNumber mp)"
      by (simp add: resident_residents rs1_def)
    obtain pa where pa: "composePhysicalAddress pt (mapFrameNumber mp) (getOffsetFromVA pt va) = Some pa"
      using compose_total [OF wf] by blast
    have "\<exists>st res. processAddress sim va
        = Some (\<lparr>simTable = pt, simReplacement = rs3, simStats = st\<rparr>,
                \<lparr>evHit = True, evFrame = mapFrameNumber mp, evPhysicalAddress = pa, evFault = res\<rparr>)"
      using search vpn pa
      by (simp add: processAddress_def Let_def pt_def [symmetric] rs_def [symmetric]
          rs1_def [symmetric] Some rs3_def [symmetric])
    then obtain st res where step: "processAddress sim va
        = Some (\<lparr>simTable = pt, simReplacement = rs3, simStats = st\<rparr>,
                \<lparr>evHit = True, evFrame = mapFrameNumber mp, evPhysicalAddress = pa, evFault = res\<rparr>)"
      by blast
    have noted3: "noted rs3 vpn (mapFrameNumber mp)"
      unfolding rs3_def using here1 by (rule note_present)
    have after: "translate pt va = Some (Some \<lparr>mapFrameNumber = mapFrameNumber mp, valid = True\<rparr>)"
      using inv3 noted_resident [OF noted3] vpn by (rule resident_translate)
    have "clockInv rs3 (Suc n)" if "clockInv rs n" "Suc n < 2 ^ 32"
      unfolding rs3_def using clock1 [OF that] by (rule clock_note)
    then have "clockInv rs n \<and> Suc n < 2 ^ 32 \<longrightarrow> clockInv rs3 (Suc n)" by simp
    moreover have "maxFrames rs3 = maxFrames (simReplacement sim)"
      by (simp add: rs3_def rs1_def rs_def)
    ultimately show ?thesis
      using step inv3 vpn noted3 after here
      by (intro exI [of _ "\<lparr>simTable = pt, simReplacement = rs3, simStats = st\<rparr>"]
            exI [of _ "\<lparr>evHit = True, evFrame = mapFrameNumber mp, evPhysicalAddress = pa, evFault = res\<rparr>"]
            exI [of _ vpn])
         (simp add: pt_def rs_def)
  qed
qed

lemma processAddress_undefined:
  assumes inv: "simInv (simTable sim) (simReplacement sim)" and undefined: "\<not> stepDefined sim va"
  shows "processAddress sim va = None"
proof -
  define pt where "pt = simTable sim"
  define rs where "rs = simReplacement sim"
  define rs1 where "rs1 = tickReplacementClock rs"
  have inv1: "simInv pt rs1"
    unfolding rs1_def using inv simInv_by_residents [of "tickReplacementClock rs" rs pt]
    by (simp add: pt_def rs_def)
  have tr: "translate pt va = Some None" and full: "\<not> length (loaded rs1) < unat (maxFrames rs1)"
    and none: "chooseVictimIndex rs1 = - 1"
    using undefined by (simp_all add: stepDefined_def pt_def rs_def rs1_def)
  have wf: "wfPageTable pt" using inv1 by (simp add: simInv_def)
  have search: "searchMappedPfn pt va = Some (None, pt)"
    by (simp add: searchMappedPfn_translate tr)
  obtain vpn where vpn: "getFullVPN pt va = Some vpn"
    using getFullVPN_geometry [OF wfPageTable_parts(1) [OF wf]] by blast
  have "ensureResidentPage pt rs1 va vpn = None"
    using inv1 tr vpn full none by (rule fault_undefined)
  then show ?thesis
    using search vpn
    by (simp add: processAddress_def Let_def pt_def [symmetric] rs_def [symmetric]
        rs1_def [symmetric])
qed

lemma clock_stepDefined:
  assumes inv: "simInv (simTable sim) (simReplacement sim)"
    and clock: "clockInv (simReplacement sim) n" and n: "Suc n < 2 ^ 32 - 1"
    and budget: "0 < maxFrames (simReplacement sim)"
  shows "stepDefined sim va"
proof (cases "length (loaded (simReplacement sim)) < unat (maxFrames (simReplacement sim))")
  case True
  then show ?thesis by (simp add: stepDefined_def)
next
  case False
  define rs1 where "rs1 = tickReplacementClock (simReplacement sim)"
  have inv1: "simInv (simTable sim) rs1"
    unfolding rs1_def
    using inv simInv_by_residents [of "tickReplacementClock (simReplacement sim)" "simReplacement sim" "simTable sim"]
    by simp
  have clock1: "clockInv rs1 (Suc n)"
    unfolding rs1_def using clock n by (intro clock_tick) simp_all
  have "0 < maxFrames rs1" "\<not> length (loaded rs1) < unat (maxFrames rs1)"
    using budget False by (simp_all add: rs1_def)
  from victim_exists [OF inv1 this(1) clock1 n this(2)]
  have "chooseVictimIndex rs1 \<noteq> - 1" by auto
  then show ?thesis by (simp add: stepDefined_def rs1_def)
qed

lemma startSimulation_simInv:
  assumes v: "validBits bs" and s: "sum_list (map unat bs) \<le> 31"
  shows "\<exists>sim0. startSimulation bs mf interval = Some sim0
          \<and> simInv (simTable sim0) (simReplacement sim0)
          \<and> clockInv (simReplacement sim0) 0
          \<and> simReplacement sim0 = initReplacementState mf interval
          \<and> levelBits (simTable sim0) = bs"
proof -
  have ne: "bs \<noteq> []" using v by (simp add: validBits_def)
  then have "unat (hd bs) \<le> sum_list (map unat bs)" by (cases bs) simp_all
  then have "unat (hd bs) \<noteq> unat (32 :: u32)" using s by simp
  then have hd: "hd bs \<noteq> 32" by auto
  define pt where "pt = geometry bs (allocateLevel 0 (2 ^ unat (hd bs)))"
  note c = createPageTable_wf [OF v hd, folded pt_def]
  note p = wfPageTable_parts [OF c(2)]
  have bits: "levelBits pt = bs" by (simp add: pt_def geometry_def)
  have root: "rootLevel pt = allocateLevel 0 (2 ^ unat (hd bs))" by (simp add: pt_def geometry_def)
  have empty: "translate pt va = Some None" for va
    using searchLoop_fresh [OF p(1), of 0 va 0 "2 ^ unat (hd bs)"] p(3)
    by (simp add: translate_eq root)
  define rs where "rs = initReplacementState mf interval"
  have none: "loaded rs = []" and time: "currentTime rs = 0" and nf: "nextFreeFrame rs = 0"
    by (simp_all add: rs_def initReplacementState_def)
  have "consistent pt rs" by (simp add: consistent_def empty none)
  moreover have "residentInv rs" "framesInOrder rs"
    by (simp_all add: residentInv_def framesInOrder_def none nf)
  ultimately have "simInv pt rs" using c(2) s by (simp add: simInv_def bits none)
  moreover have "clockInv rs 0" by (simp add: clockInv_def none time)
  moreover have "startSimulation bs mf interval
      = Some \<lparr>simTable = pt, simReplacement = rs, simStats = initStats\<rparr>"
    by (simp add: startSimulation_def c(1) rs_def)
  ultimately show ?thesis using bits by (simp add: rs_def)
qed

lemma runTrace_simInv:
  assumes "runTrace sim vas = Some (sim', evs)"
    and "simInv (simTable sim) (simReplacement sim)"
  shows "simInv (simTable sim') (simReplacement sim')
       \<and> maxFrames (simReplacement sim') = maxFrames (simReplacement sim)
       \<and> levelBits (simTable sim') = levelBits (simTable sim)"
  using assms
proof (induction vas arbitrary: sim evs)
  case Nil
  then show ?case by simp
next
  case (Cons va vas)
  from Cons.prems(1) obtain sim1 ev evs1 where first: "processAddress sim va = Some (sim1, ev)"
    and rest: "runTrace sim1 vas = Some (sim', evs1)"
    by (auto simp add: bind_eq_Some_conv)
  have "stepDefined sim va"
    using processAddress_undefined [OF Cons.prems(2), of va] first by auto
  from processAddress_step [OF Cons.prems(2) this, of 0] first
  have one: "simInv (simTable sim1) (simReplacement sim1)"
      "maxFrames (simReplacement sim1) = maxFrames (simReplacement sim)"
      "levelBits (simTable sim1) = levelBits (simTable sim)"
    by auto
  from Cons.IH [OF rest one(1)] one(2,3) show ?case by simp
qed

lemma runTrace_total:
  assumes "simInv (simTable sim) (simReplacement sim)"
    and "clockInv (simReplacement sim) n" and "n + length vas < 2 ^ 32 - 1"
    and "0 < maxFrames (simReplacement sim)"
  shows "\<exists>sim' evs. runTrace sim vas = Some (sim', evs) \<and> length evs = length vas
           \<and> clockInv (simReplacement sim') (n + length vas)"
  using assms
proof (induction vas arbitrary: sim n)
  case Nil
  then show ?case by simp
next
  case (Cons va vas)
  have n: "Suc n < 2 ^ 32 - 1" using Cons.prems(3) by simp
  have "stepDefined sim va"
    using Cons.prems(1,2) n Cons.prems(4) by (rule clock_stepDefined)
  from processAddress_step [OF Cons.prems(1) this, of n]
  obtain sim1 ev where first: "processAddress sim va = Some (sim1, ev)"
    and inv1: "simInv (simTable sim1) (simReplacement sim1)"
    and clock1: "clockInv (simReplacement sim) n \<and> Suc n < 2 ^ 32
                   \<longrightarrow> clockInv (simReplacement sim1) (Suc n)"
    and mf: "maxFrames (simReplacement sim1) = maxFrames (simReplacement sim)"
    by blast
  have c1: "clockInv (simReplacement sim1) (Suc n)" using clock1 Cons.prems(2) n by simp
  have "Suc n + length vas < 2 ^ 32 - 1" using Cons.prems(3) by simp
  moreover have "0 < maxFrames (simReplacement sim1)" using Cons.prems(4) mf by simp
  ultimately obtain sim' evs where "runTrace sim1 vas = Some (sim', evs)" "length evs = length vas"
      "clockInv (simReplacement sim') (Suc n + length vas)"
    using Cons.IH [OF inv1 c1] by blast
  then show ?case using first by simp
qed

text \<open>
  A run with one frame and the level bit-widths 1 and 2: two faults, the second with
  an eviction, then a hit; the page of the second address is the only resident one.
\<close>

lemma run_example:
  "map_option (\<lambda>(sim, evs). (residents (simReplacement sim), map evHit evs, map evFrame evs))
     (startSimulation [1, 2] 1 1 \<bind> (\<lambda>s. runTrace s [0, 0x20000000, 0x20000000]))
   = Some ([(1, 0)], [False, False, True], [0, 0, 0])"
  by code_simp

text \<open>
  C5. The invariant of the resident records. For every configuration with positive
  level bit-widths summing to at most 31 (\<open>main\<close> admits sums up to 28), every frame
  budget and aging interval: the simulation starts with no resident record, and after
  every trace of addresses that the run processes, the frame budget is still the
  configured one, the number of resident records is at most the budget, and the frame
  numbers and the VPNs of the resident records are pairwise distinct. The run does
  process every trace of fewer than \<open>2^32 - 1\<close> addresses when the budget is positive,
  returning one event per address.
\<close>

theorem resident_invariant:
  assumes "validBits bs" and "sum_list (map unat bs) \<le> 31"
  shows "\<exists>sim0. startSimulation bs mf interval = Some sim0
          \<and> loaded (simReplacement sim0) = []
          \<and> (\<forall>vas sim evs. runTrace sim0 vas = Some (sim, evs) \<longrightarrow>
                 maxFrames (simReplacement sim) = mf
               \<and> length (loaded (simReplacement sim)) \<le> unat mf
               \<and> distinct (map frameNumber (loaded (simReplacement sim)))
               \<and> distinct (map fullVPN (loaded (simReplacement sim))))
          \<and> (\<forall>vas. 0 < mf \<and> length vas < 2 ^ 32 - 1 \<longrightarrow>
                 (\<exists>sim evs. runTrace sim0 vas = Some (sim, evs) \<and> length evs = length vas))"
proof -
  from startSimulation_simInv [OF assms, of mf interval]
  obtain sim0 where start: "startSimulation bs mf interval = Some sim0"
    and inv: "simInv (simTable sim0) (simReplacement sim0)"
    and clock: "clockInv (simReplacement sim0) 0"
    and rs0: "simReplacement sim0 = initReplacementState mf interval"
    by blast
  have mf0: "maxFrames (simReplacement sim0) = mf" and none: "loaded (simReplacement sim0) = []"
    by (simp_all add: rs0 initReplacementState_def)
  have always: "maxFrames (simReplacement sim) = mf
               \<and> length (loaded (simReplacement sim)) \<le> unat mf
               \<and> distinct (map frameNumber (loaded (simReplacement sim)))
               \<and> distinct (map fullVPN (loaded (simReplacement sim)))"
    if "runTrace sim0 vas = Some (sim, evs)" for vas sim evs
  proof -
    from runTrace_simInv [OF that inv]
    have "simInv (simTable sim) (simReplacement sim)" "maxFrames (simReplacement sim) = mf"
      by (simp_all add: mf0)
    then show ?thesis by (simp add: simInv_def residentInv_def)
  qed
  have returns: "\<exists>sim evs. runTrace sim0 vas = Some (sim, evs) \<and> length evs = length vas"
    if "0 < mf \<and> length vas < 2 ^ 32 - 1" for vas
    using runTrace_total [OF inv clock, of vas] that by (auto simp add: mf0)
  show ?thesis using start none always returns by blast
qed

theorem resident_invariant_witness:
  "validBits [1, 2] \<and> sum_list (map unat [1, 2 :: u32]) \<le> 31
   \<and> (\<exists>sim0 sim evs. startSimulation [1, 2] 1 1 = Some sim0
         \<and> runTrace sim0 [0, 0x20000000, 0x20000000] = Some (sim, evs)
         \<and> length evs = 3
         \<and> length (loaded (simReplacement sim)) \<le> unat (1 :: u32)
         \<and> distinct (map frameNumber (loaded (simReplacement sim)))
         \<and> distinct (map fullVPN (loaded (simReplacement sim))))"
proof -
  have v: "validBits [1, 2]" by (simp add: validBits_def)
  have s: "sum_list (map unat [1, 2 :: u32]) \<le> 31" by simp
  from resident_invariant [OF v s, of 1 1]
  obtain sim0 where start: "startSimulation [1, 2] 1 1 = Some sim0"
    and always: "\<forall>vas sim evs. runTrace sim0 vas = Some (sim, evs) \<longrightarrow>
                 maxFrames (simReplacement sim) = 1
               \<and> length (loaded (simReplacement sim)) \<le> unat (1 :: u32)
               \<and> distinct (map frameNumber (loaded (simReplacement sim)))
               \<and> distinct (map fullVPN (loaded (simReplacement sim)))"
    and returns: "\<forall>vas. 0 < (1 :: u32) \<and> length vas < 2 ^ 32 - 1 \<longrightarrow>
                 (\<exists>sim evs. runTrace sim0 vas = Some (sim, evs) \<and> length evs = length vas)"
    by blast
  from returns [rule_format, of "[0, 0x20000000, 0x20000000]"]
  obtain sim evs where run: "runTrace sim0 [0, 0x20000000, 0x20000000] = Some (sim, evs)"
    and len: "length evs = 3" by auto
  from always [rule_format, OF run] start run len v s show ?thesis by blast
qed

text \<open>
  C10. The page table and the replacement state agree. For every configuration as in
  C5: at the start and after each processed address of a run, an address translates to
  a valid mapping with frame \<open>F\<close> exactly when a resident record holds its VPN and \<open>F\<close>
  (\<open>consistent\<close>); when the lookup of an address hits, the frame it returns belongs to a
  resident record with the VPN of the address; after the address is processed, hit or
  fault, a record with its VPN and the resolved frame carries the current time and the
  accessed mark, so the access note has found and updated a record; the processing of
  one more address after a trace returns whenever the budget is positive and fewer than
  \<open>2^32 - 1\<close> addresses are processed in all; and \<open>noteFrameAccess\<close> on a pair of VPN and
  frame that no record holds returns the state it was given.
\<close>

theorem table_matches_residents:
  assumes "validBits bs" and "sum_list (map unat bs) \<le> 31"
  shows "\<exists>sim0. startSimulation bs mf interval = Some sim0
          \<and> consistent (simTable sim0) (simReplacement sim0)
          \<and> (\<forall>vas sim evs va sim' ev.
                runTrace sim0 vas = Some (sim, evs) \<and> processAddress sim va = Some (sim', ev) \<longrightarrow>
                  consistent (simTable sim') (simReplacement sim')
                \<and> (\<exists>vpn. getFullVPN (simTable sim) va = Some vpn
                      \<and> (evHit ev \<longrightarrow> resident (simReplacement sim) vpn (evFrame ev))
                      \<and> noted (simReplacement sim') vpn (evFrame ev)))
          \<and> (\<forall>vas va. 0 < mf \<and> Suc (length vas) < 2 ^ 32 - 1 \<longrightarrow>
                (\<exists>sim evs sim' ev. runTrace sim0 vas = Some (sim, evs)
                    \<and> processAddress sim va = Some (sim', ev)))
          \<and> (\<forall>rs w F. \<not> resident rs w F \<longrightarrow> noteFrameAccess rs w F = rs)"
proof -
  from startSimulation_simInv [OF assms, of mf interval]
  obtain sim0 where start: "startSimulation bs mf interval = Some sim0"
    and inv: "simInv (simTable sim0) (simReplacement sim0)"
    and clock: "clockInv (simReplacement sim0) 0"
    and rs0: "simReplacement sim0 = initReplacementState mf interval"
    by blast
  have mf0: "maxFrames (simReplacement sim0) = mf" by (simp add: rs0 initReplacementState_def)
  have first: "consistent (simTable sim0) (simReplacement sim0)" using inv by (simp add: simInv_def)
  have each: "consistent (simTable sim') (simReplacement sim')
                \<and> (\<exists>vpn. getFullVPN (simTable sim) va = Some vpn
                      \<and> (evHit ev \<longrightarrow> resident (simReplacement sim) vpn (evFrame ev))
                      \<and> noted (simReplacement sim') vpn (evFrame ev))"
    if "runTrace sim0 vas = Some (sim, evs) \<and> processAddress sim va = Some (sim', ev)"
    for vas sim evs va sim' ev
  proof -
    have run: "runTrace sim0 vas = Some (sim, evs)" and step: "processAddress sim va = Some (sim', ev)"
      using that by simp_all
    from runTrace_simInv [OF run inv] have here: "simInv (simTable sim) (simReplacement sim)" by simp
    have "stepDefined sim va" using processAddress_undefined [OF here, of va] step by auto
    from processAddress_step [OF here this, of 0] step
    obtain vpn where "simInv (simTable sim') (simReplacement sim')"
        "getFullVPN (simTable sim) va = Some vpn"
        "evHit ev \<longrightarrow> resident (simReplacement sim) vpn (evFrame ev)"
        "noted (simReplacement sim') vpn (evFrame ev)"
      by auto
    then show ?thesis by (auto simp add: simInv_def)
  qed
  have returns: "\<exists>sim evs sim' ev. runTrace sim0 vas = Some (sim, evs)
                    \<and> processAddress sim va = Some (sim', ev)"
    if "0 < mf \<and> Suc (length vas) < 2 ^ 32 - 1" for vas va
  proof -
    have "0 + length vas < 2 ^ 32 - 1" "0 < maxFrames (simReplacement sim0)"
      using that by (simp_all add: mf0)
    from runTrace_total [OF inv clock this]
    obtain sim evs where run: "runTrace sim0 vas = Some (sim, evs)"
      and c: "clockInv (simReplacement sim) (0 + length vas)" by blast
    from runTrace_simInv [OF run inv]
    have here: "simInv (simTable sim) (simReplacement sim)"
      and "maxFrames (simReplacement sim) = mf" by (simp_all add: mf0)
    then have "0 < maxFrames (simReplacement sim)" using that by simp
    moreover have "Suc (0 + length vas) < 2 ^ 32 - 1" using that by simp
    ultimately have "stepDefined sim va" using here c by (intro clock_stepDefined)
    from processAddress_step [OF here this, of 0] run show ?thesis by blast
  qed
  have "\<forall>rs w F. \<not> resident rs w F \<longrightarrow> noteFrameAccess rs w F = rs"
    by (simp add: note_absent)
  then show ?thesis using start first each returns by blast
qed

theorem table_matches_residents_witness:
  "validBits [1, 2] \<and> sum_list (map unat [1, 2 :: u32]) \<le> 31
   \<and> (\<exists>sim0 sim evs sim' ev vpn. startSimulation [1, 2] 1 1 = Some sim0
         \<and> runTrace sim0 [0, 0x20000000] = Some (sim, evs)
         \<and> processAddress sim 0x20000000 = Some (sim', ev)
         \<and> consistent (simTable sim') (simReplacement sim')
         \<and> getFullVPN (simTable sim) 0x20000000 = Some vpn
         \<and> noted (simReplacement sim') vpn (evFrame ev))
   \<and> noteFrameAccess (initReplacementState 1 1) 0 0 = initReplacementState 1 1"
proof -
  have v: "validBits [1, 2]" by (simp add: validBits_def)
  have s: "sum_list (map unat [1, 2 :: u32]) \<le> 31" by simp
  from table_matches_residents [OF v s, of 1 1]
  obtain sim0 where start: "startSimulation [1, 2] 1 1 = Some sim0"
    and each: "\<forall>vas sim evs va sim' ev.
                runTrace sim0 vas = Some (sim, evs) \<and> processAddress sim va = Some (sim', ev) \<longrightarrow>
                  consistent (simTable sim') (simReplacement sim')
                \<and> (\<exists>vpn. getFullVPN (simTable sim) va = Some vpn
                      \<and> (evHit ev \<longrightarrow> resident (simReplacement sim) vpn (evFrame ev))
                      \<and> noted (simReplacement sim') vpn (evFrame ev))"
    and returns: "\<forall>vas va. 0 < (1 :: u32) \<and> Suc (length vas) < 2 ^ 32 - 1 \<longrightarrow>
                (\<exists>sim evs sim' ev. runTrace sim0 vas = Some (sim, evs)
                    \<and> processAddress sim va = Some (sim', ev))"
    and absent: "\<forall>rs w F. \<not> resident rs w F \<longrightarrow> noteFrameAccess rs w F = rs"
    by blast
  from returns [rule_format, of "[0, 0x20000000]" "0x20000000"]
  obtain sim evs sim' ev where run: "runTrace sim0 [0, 0x20000000] = Some (sim, evs)"
    and step: "processAddress sim 0x20000000 = Some (sim', ev)" by auto
  from each [rule_format, OF conjI [OF run step]]
  obtain vpn where "consistent (simTable sim') (simReplacement sim')"
      "getFullVPN (simTable sim) 0x20000000 = Some vpn"
      "noted (simReplacement sim') vpn (evFrame ev)" by blast
  moreover have "\<not> resident (initReplacementState 1 1) 0 0"
    by (simp add: resident_def initReplacementState_def)
  then have "noteFrameAccess (initReplacementState 1 1) 0 0 = initReplacementState 1 1"
    using absent by blast
  ultimately show ?thesis using start run step v s by blast
qed

end
